theory Spec2Isabelle
  imports Main
begin

section \<open>The control flow graph builder of intcode\_to\_dot.py\<close>

text \<open>
  The function \<open>cfg\<close> of \<open>2019/lib/intcode_to_dot.py\<close> decodes an Intcode program
  into a list of ops, marks heads and tails of basic blocks on the op objects, cuts the
  list into blocks and collects the edges between the blocks.

  The op objects are shared between the list \<open>ops\<close>, the dictionary \<open>addr_to_op\<close>
  and the blocks, and the loops mutate them. The model therefore keeps an explicit store:
  the list \<open>ops\<close> holds the objects, and a reference to an op is its position in
  that list. The dictionary and the blocks hold references.
\<close>

subsection \<open>Data\<close>

text \<open>
  Modelled from the spec: the module \<open>intcode\<close> (classes \<open>IntcodeVM\<close>, \<open>Op\<close>,
  \<open>OpHlt\<close>, \<open>OpInvalid\<close>, the constants \<open>ARGMODE_*\<close>) is not among the sources.
  The three addressing modes are the three names that \<open>disassemble\<close> tests for.
\<close>

datatype argmode = ARGMODE_POSITIONAL | ARGMODE_IMMEDIATE | ARGMODE_RELATIVE

text \<open>
  Modelled from the spec: the class of an op. The source only tests for \<open>OpHlt\<close> and
  \<open>OpInvalid\<close>; every other class of the missing module is \<open>OpOther\<close>.
\<close>

datatype optype = OpHlt | OpInvalid | OpOther

text \<open>What \<open>Op.fromcode\<close> returns: the attributes of an op that the decoder sets.\<close>

record instr =
  pc :: int
  optype :: optype
  mnemonic :: string
  args :: "int list"
  argmodes :: "argmode list"

text \<open>
  The attributes that \<open>cfg\<close> adds to an op object. \<open>jump_addr\<close> and \<open>block_id\<close> are
  \<open>None\<close> as long as the attribute has not been assigned.
\<close>

record op = instr +
  head :: bool
  tail :: bool
  jump_addr :: "int option"
  block_id :: "nat option"

datatype error = IndexError | AttributeError

datatype jkind = J_UNCONDITIONAL | J_TRUE | J_FALSE

type_synonym edge = "nat \<times> nat \<times> jkind"

record cfg_result =
  ops :: "op list"
  addr_to_op :: "int \<rightharpoonup> nat"
  blocks :: "nat list list"
  edges :: "edge list"

subsection \<open>Operations\<close>

text \<open>
  \<open>op.mnemonic in ('jnz', 'jz') and op.argmodes[1] == ARGMODE_IMMEDIATE\<close>: the index
  is only evaluated for a conditional jump, and raises when there is no second mode.
\<close>

definition breaks_basic_block :: "instr \<Rightarrow> error + bool" where
  "breaks_basic_block d =
     (if mnemonic d \<in> set [''jnz'', ''jz'']
      then (if 1 < length (argmodes d)
            then Inr (argmodes d ! 1 = ARGMODE_IMMEDIATE)
            else Inl IndexError)
      else Inr False)"

text \<open>The op object after \<open>op.head = False; op.tail = breaks_basic_block(op)\<close>.\<close>

definition new_op :: "instr \<Rightarrow> bool \<Rightarrow> op" where
  "new_op d t =
     \<lparr>pc = pc d, optype = optype d, mnemonic = mnemonic d, args = args d,
      argmodes = argmodes d, head = False, tail = t, jump_addr = None, block_id = None\<rparr>"

definition instr_of :: "op \<Rightarrow> instr" where
  "instr_of x =
     \<lparr>pc = pc x, optype = optype x, mnemonic = mnemonic x, args = args x,
      argmodes = argmodes x\<rparr>"

text \<open>
  Lines 77 to 83, the decoding loop. Its argument is the sequence of ops that
  \<open>Op.fromcode\<close> returns at the successive values of \<open>vm.pc\<close>.
\<close>

fun decode_loop ::
  "instr list \<Rightarrow> op list \<Rightarrow> (int \<rightharpoonup> nat) \<Rightarrow> error + (op list \<times> (int \<rightharpoonup> nat))" where
  "decode_loop [] s a = Inr (s, a)"
| "decode_loop (d # ds) s a =
     (case breaks_basic_block d of
        Inl e \<Rightarrow> Inl e
      | Inr t \<Rightarrow> decode_loop ds (s @ [new_op d t]) (a(pc d \<mapsto> length s)))"

text \<open>Lines 87 to 89: \<open>for prev, cur in zip(ops, ops[1:])\<close>.\<close>

fun mark_after_tail :: "(nat \<times> nat) list \<Rightarrow> op list \<Rightarrow> op list" where
  "mark_after_tail [] s = s"
| "mark_after_tail ((prev, cur) # ps) s =
     mark_after_tail ps
       (if tail (s ! prev) then s[cur := (s ! cur)\<lparr>head := True\<rparr>] else s)"

text \<open>
  Lines 91 to 96: \<open>for op in filter(attrgetter('tail'), ops)\<close>. The method
  \<open>decode_arg\<close> of the missing class is a parameter.
\<close>

fun mark_targets ::
  "(op \<Rightarrow> nat \<Rightarrow> int) \<Rightarrow> (int \<rightharpoonup> nat) \<Rightarrow> nat list \<Rightarrow> op list \<Rightarrow> op list" where
  "mark_targets decode_arg a [] s = s"
| "mark_targets decode_arg a (r # rs) s =
     (let ja = decode_arg (s ! r) 1;
          s1 = s[r := (s ! r)\<lparr>jump_addr := Some ja\<rparr>]
      in mark_targets decode_arg a rs
           (case a ja of
              None \<Rightarrow> s1
            | Some dst \<Rightarrow> s1[dst := (s1 ! dst)\<lparr>head := True\<rparr>]))"

text \<open>\<open>if cur_block:\<close> is false for \<open>None\<close> and for the empty list.\<close>

fun close_block :: "nat list list \<Rightarrow> nat list option \<Rightarrow> nat list list" where
  "close_block bs None = bs"
| "close_block bs (Some b) = (if b = [] then bs else bs @ [b])"

text \<open>Lines 103 to 113: \<open>for op in ops\<close>.\<close>

fun partition_loop ::
  "nat list \<Rightarrow> op list \<Rightarrow> nat list list \<Rightarrow> nat list option \<Rightarrow> nat \<Rightarrow>
   error + (op list \<times> nat list list \<times> nat list option \<times> nat)" where
  "partition_loop [] s bs cur_block cur_block_id = Inr (s, bs, cur_block, cur_block_id)"
| "partition_loop (r # rs) s bs cur_block cur_block_id =
     (let s1 = s[r := (s ! r)\<lparr>block_id := Some cur_block_id\<rparr>]
      in if head (s1 ! r)
         then partition_loop rs s1 (close_block bs cur_block) (Some [r]) (cur_block_id + 1)
         else (case cur_block of
                 None \<Rightarrow> Inl AttributeError
               | Some b \<Rightarrow> partition_loop rs s1 bs (Some (b @ [r])) cur_block_id))"

text \<open>Lines 118 to 133: \<open>for i, (prev, cur) in enumerate(zip(blocks, blocks[1:]))\<close>.\<close>

fun edges_loop ::
  "(nat \<times> nat list \<times> nat list) list \<Rightarrow> op list \<Rightarrow> (int \<rightharpoonup> nat) \<Rightarrow> edge list \<Rightarrow>
   error + edge list" where
  "edges_loop [] s a es = Inr es"
| "edges_loop ((i, prev, cur) # ps) s a es =
     (if prev = [] then Inl IndexError
      else let prev_op = s ! last prev
       in if optype prev_op = OpHlt then edges_loop ps s a es
          else if tail prev_op
          then (case jump_addr prev_op of
                  None \<Rightarrow> Inl AttributeError
                | Some ja \<Rightarrow>
                   (case (case a ja of
                            None \<Rightarrow> Inr es
                          | Some dst \<Rightarrow>
                             (case block_id (s ! dst) of
                                None \<Rightarrow> Inl AttributeError
                              | Some d \<Rightarrow> Inr (es @ [(i, d, J_TRUE)]))) of
                      Inl e \<Rightarrow> Inl e
                    | Inr es1 \<Rightarrow>
                       (if cur = [] then Inl IndexError
                        else edges_loop ps s a
                               (es1 @ [(i, i + 1,
                                        if head (s ! hd cur) then J_FALSE
                                        else J_UNCONDITIONAL)]))))
          else edges_loop ps s a (es @ [(i, i + 1, J_UNCONDITIONAL)]))"

text \<open>
  \<open>cfg\<close> up to the point where the blocks and the edges are handed to the renderer.
  The result also holds the store and the dictionary, for reference.
\<close>

definition cfg :: "(op \<Rightarrow> nat \<Rightarrow> int) \<Rightarrow> instr list \<Rightarrow> error + cfg_result" where
  "cfg decode_arg stream =
     (case decode_loop stream [] Map.empty of
        Inl e \<Rightarrow> Inl e
      | Inr (ops0, a) \<Rightarrow>
         if ops0 = [] then Inl IndexError
         else
           let ops1 = ops0[0 := (ops0 ! 0)\<lparr>head := True\<rparr>];
               refs = [0..<length ops1];
               ops2 = mark_after_tail (zip refs (drop 1 refs)) ops1;
               ops3 = mark_targets decode_arg a (filter (\<lambda>r. tail (ops2 ! r)) refs) ops2
           in (case partition_loop refs ops3 [] None 0 of
                 Inl e \<Rightarrow> Inl e
               | Inr (ops4, bs0, cur_block, cur_block_id) \<Rightarrow>
                  (let bs = close_block bs0 cur_block
                   in (case edges_loop (enumerate 0 (zip bs (drop 1 bs))) ops4 a [] of
                         Inl e \<Rightarrow> Inl e
                       | Inr es \<Rightarrow>
                          Inr \<lparr>ops = ops4, addr_to_op = a, blocks = bs, edges = es\<rparr>))))"

subsection \<open>Auxiliary definitions\<close>

text \<open>
  The streams on which \<open>breaks_basic_block\<close> raises no \<open>IndexError\<close>: every \<open>jnz\<close>
  and \<open>jz\<close> has a second addressing mode. The decoder gives both two arguments.
\<close>

definition wf_stream :: "instr list \<Rightarrow> bool" where
  "wf_stream ds = (\<forall>d \<in> set ds. mnemonic d \<in> set [''jnz'', ''jz''] \<longrightarrow> 1 < length (argmodes d))"

text \<open>The op object that the decoding loop appends for a decoded instruction.\<close>

definition init_op :: "instr \<Rightarrow> op" where
  "init_op d = new_op d (mnemonic d \<in> set [''jnz'', ''jz''] \<and> argmodes d ! 1 = ARGMODE_IMMEDIATE)"

text \<open>One iteration of the loop of lines 91 to 96, for the tail \<open>r\<close> with target \<open>ja\<close>.\<close>

definition target_step :: "(int \<rightharpoonup> nat) \<Rightarrow> nat \<Rightarrow> int \<Rightarrow> op list \<Rightarrow> op list" where
  "target_step a r ja s =
     (case a ja of
        None \<Rightarrow> s[r := (s ! r)\<lparr>jump_addr := Some ja\<rparr>]
      | Some dst \<Rightarrow> (s[r := (s ! r)\<lparr>jump_addr := Some ja\<rparr>])
           [dst := (s[r := (s ! r)\<lparr>jump_addr := Some ja\<rparr>] ! dst)\<lparr>head := True\<rparr>])"

text \<open>
  What the loop of lines 103 to 113 establishes for the block with index \<open>j\<close>: it is
  not empty, its first op is a head with \<open>block_id\<close> \<open>j\<close>, and its other ops are no
  heads and have the \<open>block_id\<close> \<open>j + 1\<close>, the value of the counter after the head.
\<close>

definition block_ok :: "op list \<Rightarrow> nat \<Rightarrow> nat list \<Rightarrow> bool" where
  "block_ok s j b =
     (b \<noteq> [] \<and> head (s ! hd b) \<and> block_id (s ! hd b) = Some j \<and>
      (\<forall>x \<in> set (tl b). \<not> head (s ! x) \<and> block_id (s ! x) = Some (Suc j)))"

text \<open>
  The invariant of that loop when the ops \<open>0, \<dots>, k - 1\<close> have been visited; the
  current block counts as the last block.
\<close>

definition part_inv ::
  "op list \<Rightarrow> nat list list \<Rightarrow> nat list option \<Rightarrow> nat \<Rightarrow> nat \<Rightarrow> bool" where
  "part_inv s bs cur cid k =
     (concat (close_block bs cur) = [0..<k] \<and>
      cid = length (close_block bs cur) \<and>
      (cur = None \<longrightarrow> bs = []) \<and> cur \<noteq> Some [] \<and>
      (\<forall>j < length (close_block bs cur). block_ok s j (close_block bs cur ! j)))"

text \<open>
  The edges that one iteration of the loop of lines 118 to 133 appends when it raises no
  error, and the conditions under which it raises none.
\<close>

definition true_edge :: "op list \<Rightarrow> (int \<rightharpoonup> nat) \<Rightarrow> nat \<Rightarrow> op \<Rightarrow> edge list" where
  "true_edge s a i prev_op =
     (case jump_addr prev_op of
        None \<Rightarrow> []
      | Some ja \<Rightarrow>
         (case a ja of
            None \<Rightarrow> []
          | Some dst \<Rightarrow>
             (case block_id (s ! dst) of None \<Rightarrow> [] | Some d \<Rightarrow> [(i, d, J_TRUE)])))"

definition pair_edges ::
  "op list \<Rightarrow> (int \<rightharpoonup> nat) \<Rightarrow> nat \<times> nat list \<times> nat list \<Rightarrow> edge list" where
  "pair_edges s a p =
     (case p of (i, prev, cur) \<Rightarrow>
        if optype (s ! last prev) = OpHlt then []
        else if tail (s ! last prev)
        then true_edge s a i (s ! last prev) @
             [(i, i + 1, if head (s ! hd cur) then J_FALSE else J_UNCONDITIONAL)]
        else [(i, i + 1, J_UNCONDITIONAL)])"

definition pair_ok :: "op list \<Rightarrow> (int \<rightharpoonup> nat) \<Rightarrow> nat \<times> nat list \<times> nat list \<Rightarrow> bool" where
  "pair_ok s a p =
     (case p of (i, prev, cur) \<Rightarrow>
        prev \<noteq> [] \<and> cur \<noteq> [] \<and>
        (tail (s ! last prev) \<longrightarrow> jump_addr (s ! last prev) \<noteq> None) \<and>
        (\<forall>ja dst. a ja = Some dst \<longrightarrow> block_id (s ! dst) \<noteq> None))"

text \<open>What holds of every result of \<open>cfg\<close> on the stream \<open>ds\<close>.\<close>

definition cfg_inv :: "instr list \<Rightarrow> cfg_result \<Rightarrow> bool" where
  "cfg_inv ds r =
     (length (ops r) = length ds \<and>
      (\<forall>i<length ds. instr_of (ops r ! i) = ds ! i) \<and>
      (\<forall>i<length ds. tail (ops r ! i) =
          (mnemonic (ds ! i) \<in> set [''jnz'', ''jz''] \<and>
           argmodes (ds ! i) ! 1 = ARGMODE_IMMEDIATE)) \<and>
      (\<forall>k d. addr_to_op r k = Some d \<longrightarrow> d < length ds \<and> pc (ds ! d) = k) \<and>
      dom (addr_to_op r) = pc ` set ds \<and>
      (\<forall>i<length ds. tail (ops r ! i) \<longrightarrow> jump_addr (ops r ! i) \<noteq> None) \<and>
      (\<forall>i<length ds. head (ops r ! i) =
          (i = 0 \<or> (0 < i \<and> tail (ops r ! (i - 1))) \<or>
           (\<exists>j<length ds. tail (ops r ! j) \<and>
              (\<exists>ja. jump_addr (ops r ! j) = Some ja \<and> addr_to_op r ja = Some i)))) \<and>
      concat (blocks r) = [0..<length ds] \<and>
      (\<forall>j<length (blocks r). block_ok (ops r) j (blocks r ! j)) \<and>
      edges r =
        concat (map (\<lambda>j. pair_edges (ops r) (addr_to_op r) (j, blocks r ! j, blocks r ! Suc j))
                  [0..<length (blocks r) - 1]))"

text \<open>
  Views of a run: the blocks, the edges, and the attributes \<open>head\<close>, \<open>tail\<close>,
  \<open>jump_addr\<close> and \<open>block_id\<close> of the ops in the order of the stream.
\<close>

definition cfg_blocks :: "(op \<Rightarrow> nat \<Rightarrow> int) \<Rightarrow> instr list \<Rightarrow> error + nat list list" where
  "cfg_blocks da ds = (case cfg da ds of Inl e \<Rightarrow> Inl e | Inr r \<Rightarrow> Inr (blocks r))"

definition cfg_edges :: "(op \<Rightarrow> nat \<Rightarrow> int) \<Rightarrow> instr list \<Rightarrow> error + edge list" where
  "cfg_edges da ds = (case cfg da ds of Inl e \<Rightarrow> Inl e | Inr r \<Rightarrow> Inr (edges r))"

definition op_attrs :: "op \<Rightarrow> bool \<times> bool \<times> int option \<times> nat option" where
  "op_attrs x = (head x, tail x, jump_addr x, block_id x)"

definition cfg_attrs ::
  "(op \<Rightarrow> nat \<Rightarrow> int) \<Rightarrow> instr list \<Rightarrow> error + (bool \<times> bool \<times> int option \<times> nat option) list" where
  "cfg_attrs da ds = (case cfg da ds of Inl e \<Rightarrow> Inl e | Inr r \<Rightarrow> Inr (map op_attrs (ops r)))"

subsection \<open>Example programs\<close>

text \<open>
  In the examples \<open>decode_arg\<close> returns the argument itself, as for an argument in
  immediate mode. \<open>ex_loop\<close> is \<open>in; out; jnz 1, 0; hlt\<close> at the addresses 0, 2, 4
  and 7. In \<open>ex_jump_next\<close> the jump goes to the next instruction, in
  \<open>ex_jump_invalid\<close> to an op with an invalid opcode, in \<open>ex_jump_out\<close> beyond the
  end of the program, in \<open>ex_halt_mid\<close> over a halt instruction. \<open>ex_last_tail\<close> ends
  in a jump back to its start, and \<open>ex_single\<close> is one jump to itself.
\<close>

definition mk_instr :: "int \<Rightarrow> optype \<Rightarrow> string \<Rightarrow> int list \<Rightarrow> argmode list \<Rightarrow> instr" where
  "mk_instr p t m as ms = \<lparr>pc = p, optype = t, mnemonic = m, args = as, argmodes = ms\<rparr>"

definition ex_decode_arg :: "op \<Rightarrow> nat \<Rightarrow> int" where
  "ex_decode_arg x i = (if i < length (args x) then args x ! i else 0)"

definition ex_loop :: "instr list" where
  "ex_loop =
     [mk_instr 0 OpOther ''in'' [5] [ARGMODE_POSITIONAL],
      mk_instr 2 OpOther ''out'' [5] [ARGMODE_POSITIONAL],
      mk_instr 4 OpOther ''jnz'' [1, 0] [ARGMODE_IMMEDIATE, ARGMODE_IMMEDIATE],
      mk_instr 7 OpHlt ''hlt'' [] []]"

definition ex_jump_next :: "instr list" where
  "ex_jump_next =
     [mk_instr 0 OpOther ''jnz'' [1, 3] [ARGMODE_IMMEDIATE, ARGMODE_IMMEDIATE],
      mk_instr 3 OpHlt ''hlt'' [] []]"

definition ex_jump_invalid :: "instr list" where
  "ex_jump_invalid =
     [mk_instr 0 OpOther ''jnz'' [1, 3] [ARGMODE_IMMEDIATE, ARGMODE_IMMEDIATE],
      mk_instr 3 OpInvalid ''???'' [] [],
      mk_instr 4 OpHlt ''hlt'' [] []]"

definition ex_jump_out :: "instr list" where
  "ex_jump_out =
     [mk_instr 0 OpOther ''jz'' [1, 100] [ARGMODE_IMMEDIATE, ARGMODE_IMMEDIATE],
      mk_instr 3 OpHlt ''hlt'' [] []]"

definition ex_halt_mid :: "instr list" where
  "ex_halt_mid =
     [mk_instr 0 OpOther ''jnz'' [1, 4] [ARGMODE_IMMEDIATE, ARGMODE_IMMEDIATE],
      mk_instr 3 OpHlt ''hlt'' [] [],
      mk_instr 4 OpHlt ''hlt'' [] []]"

definition ex_last_tail :: "instr list" where
  "ex_last_tail =
     [mk_instr 0 OpOther ''in'' [5] [ARGMODE_POSITIONAL],
      mk_instr 2 OpOther ''jnz'' [1, 0] [ARGMODE_IMMEDIATE, ARGMODE_IMMEDIATE]]"

definition ex_single :: "instr" where
  "ex_single = mk_instr 0 OpOther ''jnz'' [1, 0] [ARGMODE_IMMEDIATE, ARGMODE_IMMEDIATE]"

section \<open>The loops\<close>

text \<open>
  One group of lemmas for each loop of \<open>cfg\<close>: what the loop changes in the store, what
  it leaves as it is, and that it raises no error on the states that reach it.
\<close>

lemma breaks_basic_block_Inr:
  "breaks_basic_block d = Inr t \<Longrightarrow>
     t = (mnemonic d \<in> set [''jnz'', ''jz''] \<and> argmodes d ! 1 = ARGMODE_IMMEDIATE) \<and>
     (mnemonic d \<in> set [''jnz'', ''jz''] \<longrightarrow> 1 < length (argmodes d))"
  by (auto simp: breaks_basic_block_def split: if_splits)

lemma breaks_basic_block_wf:
  "(mnemonic d \<in> set [''jnz'', ''jz''] \<longrightarrow> 1 < length (argmodes d)) \<Longrightarrow>
   breaks_basic_block d =
     Inr (mnemonic d \<in> set [''jnz'', ''jz''] \<and> argmodes d ! 1 = ARGMODE_IMMEDIATE)"
  by (auto simp: breaks_basic_block_def)

lemma decode_loop_Inr:
  "decode_loop ds s a = Inr (s', a') \<Longrightarrow> s' = s @ map init_op ds \<and> wf_stream ds"
proof (induction ds arbitrary: s a)
  case Nil
  then show ?case by (simp add: wf_stream_def)
next
  case (Cons d ds)
  from Cons.prems obtain t where t: "breaks_basic_block d = Inr t"
    and rest: "decode_loop ds (s @ [new_op d t]) (a(pc d \<mapsto> length s)) = Inr (s', a')"
    by (auto split: sum.splits)
  from Cons.IH [OF rest] breaks_basic_block_Inr [OF t]
  show ?case by (simp add: init_op_def wf_stream_def)
qed

lemma decode_loop_total:
  "wf_stream ds \<Longrightarrow> \<exists>a'. decode_loop ds s a = Inr (s @ map init_op ds, a')"
proof (induction ds arbitrary: s a)
  case Nil
  then show ?case by simp
next
  case (Cons d ds)
  from Cons.prems have wd: "mnemonic d \<in> set [''jnz'', ''jz''] \<longrightarrow> 1 < length (argmodes d)"
    and wds: "wf_stream ds"
    by (simp_all add: wf_stream_def)
  from Cons.IH [OF wds, of "s @ [init_op d]" "a(pc d \<mapsto> length s)"]
  obtain a' where "decode_loop ds (s @ [init_op d]) (a(pc d \<mapsto> length s)) =
      Inr ((s @ [init_op d]) @ map init_op ds, a')"
    by blast
  then have "decode_loop (d # ds) s a = Inr (s @ map init_op (d # ds), a')"
    by (simp add: breaks_basic_block_wf [OF wd] init_op_def)
  then show ?case by blast
qed

lemma decode_loop_addr:
  "decode_loop ds s a = Inr (s', a') \<Longrightarrow>
   (\<And>k i. a k = Some i \<Longrightarrow> i < length s \<and> pc (s ! i) = k) \<Longrightarrow>
   a' k = Some i \<Longrightarrow> i < length s' \<and> pc (s' ! i) = k"
proof (induction ds arbitrary: s a)
  case Nil
  then show ?case by simp
next
  case (Cons d ds)
  from Cons.prems(1) obtain t where t: "breaks_basic_block d = Inr t"
    and rest: "decode_loop ds (s @ [new_op d t]) (a(pc d \<mapsto> length s)) = Inr (s', a')"
    by (auto split: sum.splits)
  have inv: "\<And>k i. (a(pc d \<mapsto> length s)) k = Some i \<Longrightarrow>
      i < length (s @ [new_op d t]) \<and> pc ((s @ [new_op d t]) ! i) = k"
    using Cons.prems(2) by (auto simp: nth_append new_op_def split: if_splits)
  from Cons.IH [OF rest inv Cons.prems(3)] show ?case .
qed

lemma decode_loop_dom:
  "decode_loop ds s a = Inr (s', a') \<Longrightarrow> dom a' = dom a \<union> pc ` set ds"
proof (induction ds arbitrary: s a)
  case Nil
  then show ?case by simp
next
  case (Cons d ds)
  from Cons.prems(1) obtain t where t: "breaks_basic_block d = Inr t"
    and rest: "decode_loop ds (s @ [new_op d t]) (a(pc d \<mapsto> length s)) = Inr (s', a')"
    by (auto split: sum.splits)
  from Cons.IH [OF rest] show ?case by auto
qed

lemma pc_init_op [simp]: "pc (init_op d) = pc d"
  by (simp add: init_op_def new_op_def)

lemma instr_of_init_op [simp]: "instr_of (init_op d) = d"
  by (simp add: init_op_def new_op_def instr_of_def)

lemma nth_set_head:
  "head (s[c := (s ! c)\<lparr>head := True\<rparr>] ! i) = (head (s ! i) \<or> (i = c \<and> c < length s))"
  by (cases "c < length s"; cases "i = c"; simp add: list_update_beyond)

lemma nth_set_head_frame:
  "instr_of (s[c := (s ! c)\<lparr>head := True\<rparr>] ! i) = instr_of (s ! i)"
  "tail (s[c := (s ! c)\<lparr>head := True\<rparr>] ! i) = tail (s ! i)"
  "jump_addr (s[c := (s ! c)\<lparr>head := True\<rparr>] ! i) = jump_addr (s ! i)"
  "block_id (s[c := (s ! c)\<lparr>head := True\<rparr>] ! i) = block_id (s ! i)"
  by (cases "c < length s"; cases "i = c"; simp add: instr_of_def list_update_beyond)+

lemma nth_set_jump_addr:
  "jump_addr (s[c := (s ! c)\<lparr>jump_addr := Some ja\<rparr>] ! i) =
     (if i = c \<and> c < length s then Some ja else jump_addr (s ! i))"
  by (cases "c < length s"; cases "i = c"; simp add: list_update_beyond)

lemma nth_set_jump_addr_frame:
  "instr_of (s[c := (s ! c)\<lparr>jump_addr := Some ja\<rparr>] ! i) = instr_of (s ! i)"
  "tail (s[c := (s ! c)\<lparr>jump_addr := Some ja\<rparr>] ! i) = tail (s ! i)"
  "head (s[c := (s ! c)\<lparr>jump_addr := Some ja\<rparr>] ! i) = head (s ! i)"
  "block_id (s[c := (s ! c)\<lparr>jump_addr := Some ja\<rparr>] ! i) = block_id (s ! i)"
  by (cases "c < length s"; cases "i = c"; simp add: instr_of_def list_update_beyond)+

lemma nth_set_block_id:
  "block_id (s[c := (s ! c)\<lparr>block_id := Some b\<rparr>] ! i) =
     (if i = c \<and> c < length s then Some b else block_id (s ! i))"
  by (cases "c < length s"; cases "i = c"; simp add: list_update_beyond)

lemma nth_set_block_id_frame:
  "instr_of (s[c := (s ! c)\<lparr>block_id := Some b\<rparr>] ! i) = instr_of (s ! i)"
  "tail (s[c := (s ! c)\<lparr>block_id := Some b\<rparr>] ! i) = tail (s ! i)"
  "head (s[c := (s ! c)\<lparr>block_id := Some b\<rparr>] ! i) = head (s ! i)"
  "jump_addr (s[c := (s ! c)\<lparr>block_id := Some b\<rparr>] ! i) = jump_addr (s ! i)"
  by (cases "c < length s"; cases "i = c"; simp add: instr_of_def list_update_beyond)+

lemma mark_after_tail_length: "length (mark_after_tail ps s) = length s"
  by (induction ps s rule: mark_after_tail.induct) simp_all

lemma mark_after_tail_frame:
  "instr_of (mark_after_tail ps s ! i) = instr_of (s ! i)"
  "tail (mark_after_tail ps s ! i) = tail (s ! i)"
  "jump_addr (mark_after_tail ps s ! i) = jump_addr (s ! i)"
  "block_id (mark_after_tail ps s ! i) = block_id (s ! i)"
  by (induction ps s rule: mark_after_tail.induct) (simp_all add: nth_set_head_frame)

lemma mark_after_tail_head:
  "(\<And>p c. (p, c) \<in> set ps \<Longrightarrow> c < length s) \<Longrightarrow>
   head (mark_after_tail ps s ! i) = (head (s ! i) \<or> (\<exists>p. (p, i) \<in> set ps \<and> tail (s ! p)))"
proof (induction ps s rule: mark_after_tail.induct)
  case (1 s)
  then show ?case by simp
next
  case (2 prev cur ps s)
  let ?s1 = "if tail (s ! prev) then s[cur := (s ! cur)\<lparr>head := True\<rparr>] else s"
  have len: "\<And>p c. (p, c) \<in> set ps \<Longrightarrow> c < length ?s1"
    using "2.prems" by auto
  have c: "cur < length s" using "2.prems" [of prev cur] by simp
  have t: "\<And>p. tail (?s1 ! p) = tail (s ! p)"
    by (simp add: nth_set_head_frame)
  have h: "head (?s1 ! i) = (head (s ! i) \<or> (i = cur \<and> tail (s ! prev)))"
    using c by (auto simp: nth_set_head)
  have "head (mark_after_tail ((prev, cur) # ps) s ! i) = head (mark_after_tail ps ?s1 ! i)"
    by simp
  also have "\<dots> = (head (?s1 ! i) \<or> (\<exists>p. (p, i) \<in> set ps \<and> tail (?s1 ! p)))"
    by (rule "2.IH" [OF len])
  also have "\<dots> = (head (s ! i) \<or> (\<exists>p. (p, i) \<in> set ((prev, cur) # ps) \<and> tail (s ! p)))"
    unfolding t h by auto
  finally show ?case .
qed

lemma set_zip_refs:
  "((p, c) \<in> set (zip [0..<n] (drop 1 [0..<n]))) = (c = Suc p \<and> c < n)"
proof
  assume "(p, c) \<in> set (zip [0..<n] (drop 1 [0..<n]))"
  then show "c = Suc p \<and> c < n" by (auto simp: set_zip)
next
  assume a: "c = Suc p \<and> c < n"
  then have "p < n - Suc 0" "[0..<n] ! p = p" "[Suc 0..<n] ! p = Suc p" by auto
  with a show "(p, c) \<in> set (zip [0..<n] (drop 1 [0..<n]))"
    by (auto simp: set_zip intro!: exI [of _ p])
qed

lemma mark_targets_Cons:
  "mark_targets da a (r # rs) s = mark_targets da a rs (target_step a r (da (s ! r) 1) s)"
  by (simp add: target_step_def Let_def)

lemma target_step_length: "length (target_step a r ja s) = length s"
  by (simp add: target_step_def split: option.splits)

lemma target_step_frame:
  "instr_of (target_step a r ja s ! i) = instr_of (s ! i)"
  "tail (target_step a r ja s ! i) = tail (s ! i)"
  "block_id (target_step a r ja s ! i) = block_id (s ! i)"
  by (simp_all add: target_step_def nth_set_head_frame nth_set_jump_addr_frame
        split: option.splits)

lemma target_step_jump_addr:
  "jump_addr (target_step a r ja s ! i) =
     (if i = r \<and> r < length s then Some ja else jump_addr (s ! i))"
  by (simp add: target_step_def nth_set_head_frame nth_set_jump_addr split: option.splits)

lemma target_step_head:
  "(\<And>k d. a k = Some d \<Longrightarrow> d < length s) \<Longrightarrow>
   head (target_step a r ja s ! i) = (head (s ! i) \<or> a ja = Some i)"
  by (auto simp: target_step_def nth_set_head nth_set_jump_addr_frame split: option.splits)

lemma mark_targets_length: "length (mark_targets da a rs s) = length s"
  by (induction rs arbitrary: s)
     (simp_all add: mark_targets_Cons target_step_length del: mark_targets.simps(2))

lemma mark_targets_frame:
  "instr_of (mark_targets da a rs s ! i) = instr_of (s ! i)"
  "tail (mark_targets da a rs s ! i) = tail (s ! i)"
  "block_id (mark_targets da a rs s ! i) = block_id (s ! i)"
  by (induction rs arbitrary: s)
     (simp_all add: mark_targets_Cons target_step_frame del: mark_targets.simps(2))

lemma mark_targets_jump_addr_other:
  "r \<notin> set rs \<Longrightarrow> jump_addr (mark_targets da a rs s ! r) = jump_addr (s ! r)"
  by (induction rs arbitrary: s)
     (auto simp: mark_targets_Cons target_step_jump_addr simp del: mark_targets.simps(2))

lemma mark_targets_jump_addr_set:
  "r \<in> set rs \<Longrightarrow> r < length s \<Longrightarrow> jump_addr (mark_targets da a rs s ! r) \<noteq> None"
proof (induction rs arbitrary: s)
  case Nil
  then show ?case by simp
next
  case (Cons x rs)
  let ?s = "target_step a x (da (s ! x) 1) s"
  show ?case
  proof (cases "r \<in> set rs")
    case True
    from Cons.IH [OF True, of ?s] Cons.prems(2)
    show ?thesis by (simp add: mark_targets_Cons target_step_length del: mark_targets.simps(2))
  next
    case False
    with Cons.prems have "r = x" by simp
    with False Cons.prems(2) show ?thesis
      by (simp add: mark_targets_Cons mark_targets_jump_addr_other target_step_jump_addr
            del: mark_targets.simps(2))
  qed
qed

lemma mark_targets_head:
  "distinct rs \<Longrightarrow> (\<And>r. r \<in> set rs \<Longrightarrow> r < length s) \<Longrightarrow>
   (\<And>k d. a k = Some d \<Longrightarrow> d < length s) \<Longrightarrow>
   head (mark_targets da a rs s ! i) =
     (head (s ! i) \<or>
      (\<exists>r \<in> set rs. \<exists>ja. jump_addr (mark_targets da a rs s ! r) = Some ja \<and> a ja = Some i))"
proof (induction rs arbitrary: s)
  case Nil
  then show ?case by simp
next
  case (Cons x rs)
  let ?ja = "da (s ! x) 1"
  let ?s = "target_step a x ?ja s"
  let ?res = "mark_targets da a rs ?s"
  have res: "mark_targets da a (x # rs) s = ?res" by (rule mark_targets_Cons)
  have d: "distinct rs" and x: "x \<notin> set rs" and xl: "x < length s"
    using Cons.prems(1,2) by simp_all
  have rl: "\<And>r. r \<in> set rs \<Longrightarrow> r < length ?s"
    using Cons.prems(2) by (simp add: target_step_length)
  have al: "\<And>k d. a k = Some d \<Longrightarrow> d < length ?s"
    using Cons.prems(3) by (simp add: target_step_length)
  have jx: "jump_addr (?res ! x) = Some ?ja"
    using x xl by (simp add: mark_targets_jump_addr_other target_step_jump_addr)
  have "head (?res ! i) =
      (head (?s ! i) \<or> (\<exists>r \<in> set rs. \<exists>ja. jump_addr (?res ! r) = Some ja \<and> a ja = Some i))"
    by (rule Cons.IH [OF d rl al])
  also have "head (?s ! i) = (head (s ! i) \<or> a ?ja = Some i)"
    by (rule target_step_head) (rule Cons.prems(3))
  finally show ?case unfolding res using jx by auto
qed

lemma block_ok_update:
  assumes "block_ok s j b" and "k \<notin> set b"
  shows "block_ok (s[k := (s ! k)\<lparr>block_id := Some c\<rparr>]) j b"
proof -
  from assms have ne: "b \<noteq> []" by (simp add: block_ok_def)
  then have "hd b \<in> set b" by simp
  with assms(2) have h: "hd b \<noteq> k" by auto
  have t: "\<And>x. x \<in> set (tl b) \<Longrightarrow> x \<noteq> k"
    using assms(2) ne by (auto dest: list.set_sel(2))
  show ?thesis
    using assms(1) h t
    by (auto simp: block_ok_def nth_set_block_id nth_set_block_id_frame)
qed

lemma concat_upt_less:
  assumes "concat bs = [0..<k]" and "j < length bs"
  shows "k \<notin> set (bs ! j)"
proof
  assume "k \<in> set (bs ! j)"
  with assms(2) have "k \<in> set (concat bs)" by auto
  with assms(1) show False by simp
qed

lemma part_inv_init: "part_inv s [] None 0 0"
  by (simp add: part_inv_def)

lemma part_inv_head:
  assumes inv: "part_inv s bs cur cid k" and k: "k < length s" and h: "head (s ! k)"
  shows "part_inv (s[k := (s ! k)\<lparr>block_id := Some cid\<rparr>]) (close_block bs cur) (Some [k])
           (cid + 1) (Suc k)"
proof -
  let ?all = "close_block bs cur"
  let ?s1 = "s[k := (s ! k)\<lparr>block_id := Some cid\<rparr>]"
  from inv have c: "concat ?all = [0..<k]" and l: "cid = length ?all"
    and ok: "\<And>j. j < length ?all \<Longrightarrow> block_ok s j (?all ! j)"
    by (simp_all add: part_inv_def)
  have new: "close_block ?all (Some [k]) = ?all @ [[k]]" by simp
  have "block_ok ?s1 j ((?all @ [[k]]) ! j)" if "j < length (?all @ [[k]])" for j
  proof (cases "j < length ?all")
    case True
    then show ?thesis
      using block_ok_update [OF ok [OF True] concat_upt_less [OF c True]]
      by (simp add: nth_append)
  next
    case False
    with that have "j = cid" using l by simp
    then show ?thesis
      using k h l by (simp add: nth_append block_ok_def nth_set_block_id_frame)
  qed
  then show ?thesis
    unfolding part_inv_def new using c l by simp
qed

lemma part_inv_append:
  assumes inv: "part_inv s bs (Some b) cid k" and k: "k < length s" and h: "\<not> head (s ! k)"
  shows "part_inv (s[k := (s ! k)\<lparr>block_id := Some cid\<rparr>]) bs (Some (b @ [k])) cid (Suc k)"
proof -
  let ?s1 = "s[k := (s ! k)\<lparr>block_id := Some cid\<rparr>]"
  from inv have b: "b \<noteq> []" by (simp add: part_inv_def)
  with inv have c: "concat (bs @ [b]) = [0..<k]" and l: "cid = Suc (length bs)"
    and ok: "\<And>j. j < length (bs @ [b]) \<Longrightarrow> block_ok s j ((bs @ [b]) ! j)"
    by (simp_all add: part_inv_def)
  have "block_ok ?s1 j ((bs @ [b @ [k]]) ! j)" if "j < length (bs @ [b @ [k]])" for j
  proof (cases "j < length bs")
    case True
    then have j: "j < length (bs @ [b])" by simp
    from block_ok_update [OF ok [OF j] concat_upt_less [OF c j]] True
    show ?thesis by (simp add: nth_append)
  next
    case False
    with that have j: "j = length bs" by simp
    have "block_ok s (length bs) ((bs @ [b]) ! length bs)" by (rule ok) simp
    then have okb: "block_ok s (length bs) b" by simp
    have "k \<notin> set ((bs @ [b]) ! length bs)" by (rule concat_upt_less [OF c]) simp
    then have kb: "k \<notin> set b" by simp
    from block_ok_update [OF okb kb]
    have "block_ok ?s1 (length bs) b" .
    then have "block_ok ?s1 (length bs) (b @ [k])"
      using b k h l by (auto simp: block_ok_def nth_set_block_id nth_set_block_id_frame)
    with j show ?thesis by simp
  qed
  then show ?thesis
    unfolding part_inv_def using c l by simp
qed

lemma part_inv_None:
  assumes "part_inv s bs None cid k"
  shows "k = 0"
  using assms by (cases k) (auto simp: part_inv_def upt_conv_Cons)

lemma partition_loop_inv:
  assumes "part_inv s bs cur cid k" and "n \<le> length s" and "head (s ! 0)"
  shows "\<exists>s' bs' cur' cid'.
           partition_loop [k..<n] s bs cur cid = Inr (s', bs', cur', cid') \<and>
           part_inv s' bs' cur' cid' (max k n) \<and> length s' = length s \<and>
           (\<forall>i. instr_of (s' ! i) = instr_of (s ! i) \<and> tail (s' ! i) = tail (s ! i) \<and>
                head (s' ! i) = head (s ! i) \<and> jump_addr (s' ! i) = jump_addr (s ! i))"
  using assms
proof (induction "n - k" arbitrary: k s bs cur cid)
  case 0
  then show ?case by (simp add: max_def)
next
  case (Suc m)
  then have kn: "k < n" and m: "m = n - Suc k" by simp_all
  let ?s1 = "s[k := (s ! k)\<lparr>block_id := Some cid\<rparr>]"
  have upt: "[k..<n] = k # [Suc k..<n]" using kn by (simp add: upt_conv_Cons)
  have kl: "k < length s" using kn Suc.prems(2) by simp
  have n1: "n \<le> length ?s1" using Suc.prems(2) by simp
  have h1: "head (?s1 ! 0)" using Suc.prems(3) by (simp add: nth_set_block_id_frame)
  have hk: "head (?s1 ! k) = head (s ! k)" by (simp add: nth_set_block_id_frame)
  have mx: "max (Suc k) n = max k n" using kn by simp
  show ?case
  proof (cases "head (s ! k)")
    case True
    from part_inv_head [OF Suc.prems(1) kl True]
    have inv1: "part_inv ?s1 (close_block bs cur) (Some [k]) (cid + 1) (Suc k)" .
    from Suc.hyps(1) [OF m inv1 n1 h1]
    show ?thesis
      unfolding upt mx using True hk
      by (simp add: Let_def nth_set_block_id_frame del: list_update_id)
  next
    case False
    have "cur \<noteq> None"
    proof
      assume "cur = None"
      with Suc.prems(1) have "k = 0" by (simp add: part_inv_None)
      with False Suc.prems(3) show False by simp
    qed
    then obtain b where b: "cur = Some b" by auto
    from part_inv_append [OF Suc.prems(1) [unfolded b] kl False]
    have inv1: "part_inv ?s1 bs (Some (b @ [k])) cid (Suc k)" .
    from Suc.hyps(1) [OF m inv1 n1 h1]
    show ?thesis
      unfolding upt mx using False hk b
      by (simp add: Let_def nth_set_block_id_frame del: list_update_id)
  qed
qed

lemma edges_loop_Cons:
  "pair_ok s a (i, prev, cur) \<Longrightarrow>
   edges_loop ((i, prev, cur) # ps) s a es = edges_loop ps s a (es @ pair_edges s a (i, prev, cur))"
proof -
  assume ok: "pair_ok s a (i, prev, cur)"
  then have ne: "prev \<noteq> []" "cur \<noteq> []"
    and ja: "tail (s ! last prev) \<Longrightarrow> \<exists>ja. jump_addr (s ! last prev) = Some ja"
    and bid: "\<And>ja dst. a ja = Some dst \<Longrightarrow> \<exists>d. block_id (s ! dst) = Some d"
    by (auto simp: pair_ok_def)
  show ?thesis
  proof (cases "tail (s ! last prev) \<and> optype (s ! last prev) \<noteq> OpHlt")
    case False
    then show ?thesis
      using ne by (auto simp: pair_edges_def Let_def)
  next
    case True
    with ja obtain t where t: "jump_addr (s ! last prev) = Some t" by blast
    show ?thesis
    proof (cases "a t")
      case None
      with True t ne show ?thesis
        by (simp add: pair_edges_def true_edge_def Let_def)
    next
      case (Some dst)
      with bid obtain d where "block_id (s ! dst) = Some d" by blast
      with Some True t ne show ?thesis
        by (simp add: pair_edges_def true_edge_def Let_def)
    qed
  qed
qed

lemma edges_loop_pair_edges:
  "(\<And>p. p \<in> set ps \<Longrightarrow> pair_ok s a p) \<Longrightarrow>
   edges_loop ps s a es = Inr (es @ concat (map (pair_edges s a) ps))"
proof (induction ps arbitrary: es)
  case Nil
  then show ?case by simp
next
  case (Cons p ps)
  obtain i prev cur where p: "p = (i, prev, cur)" by (cases p) auto
  have ok: "pair_ok s a (i, prev, cur)" using Cons.prems [of p] p by simp
  have IH: "\<And>es. edges_loop ps s a es = Inr (es @ concat (map (pair_edges s a) ps))"
    by (rule Cons.IH) (simp add: Cons.prems)
  show ?case
    unfolding p edges_loop_Cons [OF ok] IH by simp
qed

lemma enumerate_zip_drop:
  "enumerate 0 (zip bs (drop 1 bs)) = map (\<lambda>j. (j, bs ! j, bs ! Suc j)) [0..<length bs - 1]"
  by (rule nth_equalityI) (auto simp: nth_enumerate_eq)

lemma cfg_unfold:
  assumes "decode_loop ds [] Map.empty = Inr (ops0, a)" and "ops0 \<noteq> []"
    and "ops1 = ops0[0 := (ops0 ! 0)\<lparr>head := True\<rparr>]"
    and "refs = [0..<length ops1]"
    and "ops2 = mark_after_tail (zip refs (drop 1 refs)) ops1"
    and "ops3 = mark_targets da a (filter (\<lambda>r. tail (ops2 ! r)) refs) ops2"
    and "partition_loop refs ops3 [] None 0 = Inr (ops4, bs0, cur, cid)"
    and "bs = close_block bs0 cur"
    and "edges_loop (enumerate 0 (zip bs (drop 1 bs))) ops4 a [] = Inr es"
  shows "cfg da ds = Inr \<lparr>ops = ops4, addr_to_op = a, blocks = bs, edges = es\<rparr>"
  using assms by (simp add: cfg_def Let_def)

lemma cfg_Inr_pre:
  assumes "cfg da ds = Inr r"
  shows "ds \<noteq> [] \<and> wf_stream ds"
proof -
  from assms obtain ops0 a where dl: "decode_loop ds [] Map.empty = Inr (ops0, a)"
    and ne: "ops0 \<noteq> []"
    by (auto simp: cfg_def split: sum.splits if_splits)
  from decode_loop_Inr [OF dl] ne show ?thesis by auto
qed

lemma blocks_cover:
  assumes "concat bs = [0..<n]" and "x < n"
  shows "\<exists>j<length bs. x \<in> set (bs ! j)"
proof -
  from assms have "x \<in> set (concat bs)" by simp
  then obtain b where "b \<in> set bs" "x \<in> set b" by auto
  then show ?thesis by (auto simp: in_set_conv_nth)
qed

lemma blocks_mem_lt:
  assumes "concat bs = [0..<n]" and "j < length bs" and "x \<in> set (bs ! j)"
  shows "x < n"
proof -
  from assms(2,3) have "x \<in> set (concat bs)" by auto
  with assms(1) show ?thesis by simp
qed

lemma block_ok_cases:
  assumes "block_ok s j b" and "x \<in> set b"
  shows "(x = hd b \<and> head (s ! x) \<and> block_id (s ! x) = Some j) \<or>
         (x \<in> set (tl b) \<and> \<not> head (s ! x) \<and> block_id (s ! x) = Some (Suc j))"
proof -
  from assms(1) have "b \<noteq> []" by (simp add: block_ok_def)
  then have "b = hd b # tl b" by simp
  with assms(2) have "x = hd b \<or> x \<in> set (tl b)" by (metis set_ConsD)
  with assms(1) show ?thesis by (auto simp: block_ok_def)
qed

lemma cfg_run:
  assumes ne: "ds \<noteq> []" and wf: "wf_stream ds"
  shows "\<exists>r. cfg da ds = Inr r \<and> cfg_inv ds r"
proof -
  let ?n = "length ds"
  let ?t = "\<lambda>i. mnemonic (ds ! i) \<in> set [''jnz'', ''jz''] \<and>
                argmodes (ds ! i) ! 1 = ARGMODE_IMMEDIATE"
  from decode_loop_total [OF wf, of "[]" Map.empty]
  obtain a where dl: "decode_loop ds [] Map.empty = Inr (map init_op ds, a)" by auto
  define ops0 where "ops0 = map init_op ds"
  define ops1 where "ops1 = ops0[0 := (ops0 ! 0)\<lparr>head := True\<rparr>]"
  define refs where "refs = [0..<length ops1]"
  define ps where "ps = zip refs (drop 1 refs)"
  define ops2 where "ops2 = mark_after_tail ps ops1"
  define ts where "ts = filter (\<lambda>r. tail (ops2 ! r)) refs"
  define ops3 where "ops3 = mark_targets da a ts ops2"
  have n0: "0 < ?n" using ne by simp
  have l0: "length ops0 = ?n" by (simp add: ops0_def)
  have l1: "length ops1 = ?n" by (simp add: ops1_def l0)
  have refs: "refs = [0..<?n]" by (simp add: refs_def l1)
  have l2: "length ops2 = ?n" by (simp add: ops2_def mark_after_tail_length l1)
  have l3: "length ops3 = ?n" by (simp add: ops3_def mark_targets_length l2)
  have a_lt: "d < ?n \<and> pc (ds ! d) = k" if "a k = Some d" for k d
  proof -
    have "d < length (map init_op ds) \<and> pc (map init_op ds ! d) = k"
      by (rule decode_loop_addr [OF dl _ that]) simp
    then show ?thesis by auto
  qed
  have a_dom: "dom a = pc ` set ds" using decode_loop_dom [OF dl] by simp
  \<comment> \<open>the decoded attributes and the tail flag never change\<close>
  have i0: "instr_of (ops0 ! i) = ds ! i" and t0: "tail (ops0 ! i) = ?t i"
    and h0: "\<not> head (ops0 ! i)" if "i < ?n" for i
    using that by (simp_all add: ops0_def init_op_def new_op_def instr_of_def)
  have i1: "instr_of (ops1 ! i) = instr_of (ops0 ! i)"
    and t1: "tail (ops1 ! i) = tail (ops0 ! i)" for i
    by (simp_all add: ops1_def nth_set_head_frame)
  have h1: "head (ops1 ! i) = (i = 0)" if "i < ?n" for i
    using that h0 [OF that] n0 by (auto simp: ops1_def nth_set_head l0)
  have i2: "instr_of (ops2 ! i) = instr_of (ops1 ! i)"
    and t2: "tail (ops2 ! i) = tail (ops1 ! i)" for i
    by (simp_all add: ops2_def mark_after_tail_frame)
  have ps: "((p, c) \<in> set ps) = (c = Suc p \<and> c < ?n)" for p c
    unfolding ps_def refs by (rule set_zip_refs)
  have h2: "head (ops2 ! i) = (i = 0 \<or> (0 < i \<and> tail (ops1 ! (i - 1))))" if "i < ?n" for i
  proof -
    have "head (ops2 ! i) = (head (ops1 ! i) \<or> (\<exists>p. (p, i) \<in> set ps \<and> tail (ops1 ! p)))"
      unfolding ops2_def by (rule mark_after_tail_head) (simp add: ps l1)
    also have "\<dots> = (i = 0 \<or> (0 < i \<and> tail (ops1 ! (i - 1))))"
      using that by (cases i) (auto simp: ps h1)
    finally show ?thesis .
  qed
  have i3: "instr_of (ops3 ! i) = instr_of (ops2 ! i)"
    and t3: "tail (ops3 ! i) = tail (ops2 ! i)" for i
    by (simp_all add: ops3_def mark_targets_frame)
  have ts: "(r \<in> set ts) = (r < ?n \<and> tail (ops2 ! r))" for r
    by (auto simp: ts_def refs)
  have dts: "distinct ts" by (simp add: ts_def refs)
  have j3: "jump_addr (ops3 ! i) \<noteq> None" if "i < ?n" "tail (ops3 ! i)" for i
    unfolding ops3_def using that by (intro mark_targets_jump_addr_set) (simp_all add: ts t3 l2)
  have h3: "head (ops3 ! i) =
      (head (ops2 ! i) \<or>
       (\<exists>r<?n. tail (ops3 ! r) \<and> (\<exists>ja. jump_addr (ops3 ! r) = Some ja \<and> a ja = Some i)))" for i
  proof -
    have "head (ops3 ! i) =
      (head (ops2 ! i) \<or>
       (\<exists>r \<in> set ts. \<exists>ja. jump_addr (mark_targets da a ts ops2 ! r) = Some ja \<and> a ja = Some i))"
      unfolding ops3_def
      by (rule mark_targets_head [OF dts]) (auto simp: ts l2 dest: a_lt)
    then show ?thesis by (auto simp: ts t3 ops3_def [symmetric])
  qed
  have h3_0: "head (ops3 ! 0)" using h3 [of 0] h2 [OF n0] by simp
  \<comment> \<open>the partition\<close>
  from partition_loop_inv [OF part_inv_init, of ?n ops3] l3 h3_0
  obtain ops4 bs0 cur cid where
    pl: "partition_loop [0..<?n] ops3 [] None 0 = Inr (ops4, bs0, cur, cid)"
    and inv: "part_inv ops4 bs0 cur cid ?n" and l4: "length ops4 = ?n"
    and f4: "\<And>i. instr_of (ops4 ! i) = instr_of (ops3 ! i)"
      "\<And>i. tail (ops4 ! i) = tail (ops3 ! i)"
      "\<And>i. head (ops4 ! i) = head (ops3 ! i)"
      "\<And>i. jump_addr (ops4 ! i) = jump_addr (ops3 ! i)"
    by auto
  define bs where "bs = close_block bs0 cur"
  from inv have cc: "concat bs = [0..<?n]"
    and ok: "\<And>j. j < length bs \<Longrightarrow> block_ok ops4 j (bs ! j)"
    by (simp_all add: part_inv_def bs_def)
  \<comment> \<open>the edges\<close>
  have bid: "block_id (ops4 ! dst) \<noteq> None" if "a ja = Some dst" for ja dst
  proof -
    from a_lt [OF that] have "dst < ?n" by simp
    from blocks_cover [OF cc this] obtain j where j: "j < length bs" "dst \<in> set (bs ! j)"
      by blast
    from block_ok_cases [OF ok [OF j(1)] j(2)] show ?thesis by auto
  qed
  have pok: "pair_ok ops4 a p" if "p \<in> set (enumerate 0 (zip bs (drop 1 bs)))" for p
  proof -
    from that obtain j where j: "Suc j < length bs" and p: "p = (j, bs ! j, bs ! Suc j)"
      unfolding enumerate_zip_drop by auto
    from j have j': "j < length bs" by simp
    have ne1: "bs ! j \<noteq> []" "bs ! Suc j \<noteq> []"
      using ok [OF j] ok [OF j'] by (simp_all add: block_ok_def)
    have "last (bs ! j) < ?n"
      using blocks_mem_lt [OF cc j'] ne1(1) by simp
    then have "tail (ops4 ! last (bs ! j)) \<longrightarrow> jump_addr (ops4 ! last (bs ! j)) \<noteq> None"
      using j3 by (simp add: f4)
    with ne1 bid show ?thesis by (simp add: pair_ok_def p)
  qed
  define es where "es = concat (map (pair_edges ops4 a) (enumerate 0 (zip bs (drop 1 bs))))"
  have el: "edges_loop (enumerate 0 (zip bs (drop 1 bs))) ops4 a [] = Inr es"
    using edges_loop_pair_edges [of "enumerate 0 (zip bs (drop 1 bs))" ops4 a "[]"] pok
    by (simp add: es_def)
  let ?r = "\<lparr>ops = ops4, addr_to_op = a, blocks = bs, edges = es\<rparr>"
  have run: "cfg da ds = Inr ?r"
  proof (rule cfg_unfold [OF _ _ ops1_def refs_def])
    show "decode_loop ds [] Map.empty = Inr (ops0, a)" using dl by (simp add: ops0_def)
    show "ops0 \<noteq> []" using ne by (simp add: ops0_def)
    show "ops2 = mark_after_tail (zip refs (drop 1 refs)) ops1" by (simp add: ops2_def ps_def)
    show "ops3 = mark_targets da a (filter (\<lambda>r. tail (ops2 ! r)) refs) ops2"
      by (simp add: ops3_def ts_def)
    show "partition_loop refs ops3 [] None 0 = Inr (ops4, bs0, cur, cid)"
      using pl by (simp add: refs)
    show "bs = close_block bs0 cur" by (rule bs_def)
    show "edges_loop (enumerate 0 (zip bs (drop 1 bs))) ops4 a [] = Inr es" by (rule el)
  qed
  have i4: "instr_of (ops4 ! i) = ds ! i" if "i < ?n" for i
    using i0 [OF that] by (simp add: f4 i3 i2 i1)
  have t4: "tail (ops4 ! i) = ?t i" if "i < ?n" for i
    using t0 [OF that] by (simp add: f4 t3 t2 t1)
  have t41: "tail (ops4 ! i) = tail (ops1 ! i)" for i
    by (simp add: f4 t3 t2)
  have h4: "head (ops4 ! i) =
      (i = 0 \<or> (0 < i \<and> tail (ops4 ! (i - 1))) \<or>
       (\<exists>j<?n. tail (ops4 ! j) \<and> (\<exists>ja. jump_addr (ops4 ! j) = Some ja \<and> a ja = Some i)))"
    if "i < ?n" for i
    by (simp add: f4 h3 [of i] h2 [OF that] t3 t2)
  have j4: "jump_addr (ops4 ! i) \<noteq> None" if "i < ?n" "tail (ops4 ! i)" for i
    using j3 [of i] that by (simp add: f4)
  have e4: "es = concat (map (\<lambda>j. pair_edges ops4 a (j, bs ! j, bs ! Suc j))
      [0..<length bs - 1])"
    unfolding es_def enumerate_zip_drop by (simp add: comp_def)
  have "cfg_inv ds ?r"
    unfolding cfg_inv_def
    apply (simp only: cfg_result.simps)
    apply (intro conjI allI impI)
    apply (rule l4)
    apply (erule i4)
    apply (erule t4)
    apply (erule a_lt [THEN conjunct1])
    apply (erule a_lt [THEN conjunct2])
    apply (rule a_dom)
    apply (erule (1) j4)
    apply (erule h4)
    apply (rule cc)
    apply (erule ok)
    apply (rule e4)
    done
  with run show ?thesis by blast
qed

section \<open>Facts about the result\<close>

text \<open>
  Consequences of \<open>cfg_inv\<close>: which edges there are, where a jump target lies, and that
  a tail is always the last op of its block.
\<close>

lemma cfg_invD:
  assumes "cfg_inv ds r"
  shows "length (ops r) = length ds"
    and "\<And>i. i < length ds \<Longrightarrow> instr_of (ops r ! i) = ds ! i"
    and "\<And>i. i < length ds \<Longrightarrow> tail (ops r ! i) =
          (mnemonic (ds ! i) \<in> set [''jnz'', ''jz''] \<and>
           argmodes (ds ! i) ! 1 = ARGMODE_IMMEDIATE)"
    and "\<And>k d. addr_to_op r k = Some d \<Longrightarrow> d < length ds \<and> pc (ds ! d) = k"
    and "dom (addr_to_op r) = pc ` set ds"
    and "\<And>i. i < length ds \<Longrightarrow> tail (ops r ! i) \<Longrightarrow> jump_addr (ops r ! i) \<noteq> None"
    and "\<And>i. i < length ds \<Longrightarrow> head (ops r ! i) =
          (i = 0 \<or> (0 < i \<and> tail (ops r ! (i - 1))) \<or>
           (\<exists>j<length ds. tail (ops r ! j) \<and>
              (\<exists>ja. jump_addr (ops r ! j) = Some ja \<and> addr_to_op r ja = Some i)))"
    and "concat (blocks r) = [0..<length ds]"
    and "\<And>j. j < length (blocks r) \<Longrightarrow> block_ok (ops r) j (blocks r ! j)"
    and "edges r =
        concat (map (\<lambda>j. pair_edges (ops r) (addr_to_op r) (j, blocks r ! j, blocks r ! Suc j))
                  [0..<length (blocks r) - 1])"
  using assms unfolding cfg_inv_def by simp_all

lemma cfg_inv_of_run:
  assumes "cfg da ds = Inr r"
  shows "cfg_inv ds r"
proof -
  from cfg_Inr_pre [OF assms] have "ds \<noteq> []" "wf_stream ds" by simp_all
  from cfg_run [OF this, of da] assms show ?thesis by auto
qed

lemma true_edge_mem:
  "(e \<in> set (true_edge s a i x)) =
     (\<exists>ja dst d. jump_addr x = Some ja \<and> a ja = Some dst \<and> block_id (s ! dst) = Some d \<and>
        e = (i, d, J_TRUE))"
proof (cases "jump_addr x")
  case None
  then show ?thesis by (simp add: true_edge_def)
next
  case ja: (Some ja)
  show ?thesis
  proof (cases "a ja")
    case None
    with ja show ?thesis by (simp add: true_edge_def)
  next
    case dst: (Some dst)
    show ?thesis
    proof (cases "block_id (s ! dst)")
      case None
      with ja dst show ?thesis by (simp add: true_edge_def)
    next
      case (Some d)
      with ja dst show ?thesis by (auto simp: true_edge_def)
    qed
  qed
qed

lemma pair_edges_mem:
  assumes "head (s ! hd cur)"
  shows "((i', d, k) \<in> set (pair_edges s a (i, prev, cur))) =
     (i' = i \<and> optype (s ! last prev) \<noteq> OpHlt \<and>
      ((k = J_TRUE \<and> tail (s ! last prev) \<and>
        (\<exists>ja dst. jump_addr (s ! last prev) = Some ja \<and> a ja = Some dst \<and>
           block_id (s ! dst) = Some d)) \<or>
       (d = Suc i \<and> k = (if tail (s ! last prev) then J_FALSE else J_UNCONDITIONAL))))"
  using assms by (auto simp: pair_edges_def true_edge_mem)

lemma edges_mem:
  assumes inv: "cfg_inv ds r"
  shows "((i, d, k) \<in> set (edges r)) =
     (Suc i < length (blocks r) \<and> optype (ops r ! last (blocks r ! i)) \<noteq> OpHlt \<and>
      ((k = J_TRUE \<and> tail (ops r ! last (blocks r ! i)) \<and>
        (\<exists>ja dst. jump_addr (ops r ! last (blocks r ! i)) = Some ja \<and>
           addr_to_op r ja = Some dst \<and> block_id (ops r ! dst) = Some d)) \<or>
       (d = Suc i \<and>
        k = (if tail (ops r ! last (blocks r ! i)) then J_FALSE else J_UNCONDITIONAL))))"
proof -
  let ?bs = "blocks r"
  let ?pe = "\<lambda>j. pair_edges (ops r) (addr_to_op r) (j, ?bs ! j, ?bs ! Suc j)"
  have hd: "head (ops r ! hd (?bs ! Suc j))" if "Suc j < length ?bs" for j
    using cfg_invD(9) [OF inv that] by (simp add: block_ok_def)
  have "((i, d, k) \<in> set (edges r)) = (\<exists>j. Suc j < length ?bs \<and> (i, d, k) \<in> set (?pe j))"
    unfolding cfg_invD(10) [OF inv] by (auto simp: less_diff_conv)
  also have "\<dots> = (Suc i < length ?bs \<and> (i, d, k) \<in> set (?pe i))"
    using hd by (auto simp: pair_edges_mem)
  finally show ?thesis using hd [of i] by (auto simp: pair_edges_mem)
qed

lemma last_block_lt:
  assumes inv: "cfg_inv ds r" and j: "j < length (blocks r)"
  shows "last (blocks r ! j) < length ds"
proof -
  from cfg_invD(9) [OF inv j] have "last (blocks r ! j) \<in> set (blocks r ! j)"
    by (simp add: block_ok_def)
  from blocks_mem_lt [OF cfg_invD(8) [OF inv] j this] show ?thesis .
qed

lemma target_block:
  assumes inv: "cfg_inv ds r" and j: "j < length ds" and t: "tail (ops r ! j)"
    and ja: "jump_addr (ops r ! j) = Some ja" and dst: "addr_to_op r ja = Some dst"
  shows "\<exists>d<length (blocks r). hd (blocks r ! d) = dst \<and> block_id (ops r ! dst) = Some d \<and>
           head (ops r ! dst) \<and> dst < length ds \<and> pc (ds ! dst) = ja"
proof -
  from cfg_invD(4) [OF inv dst] have l: "dst < length ds" and p: "pc (ds ! dst) = ja"
    by simp_all
  have h: "head (ops r ! dst)"
    unfolding cfg_invD(7) [OF inv l] using j t ja dst by blast
  from blocks_cover [OF cfg_invD(8) [OF inv] l]
  obtain d where d: "d < length (blocks r)" "dst \<in> set (blocks r ! d)" by blast
  from block_ok_cases [OF cfg_invD(9) [OF inv d(1)] d(2)] h
  have "dst = hd (blocks r ! d) \<and> block_id (ops r ! dst) = Some d" by auto
  with d(1) h l p show ?thesis by auto
qed

lemma concat_upt_nth:
  assumes c: "concat bs = [0..<n]" and j: "j < length bs"
  shows "bs ! j = [length (concat (take j bs))..<length (concat (take j bs)) + length (bs ! j)]"
proof -
  let ?xs = "concat (take j bs)" and ?ys = "concat (drop (Suc j) bs)"
  have "concat bs = concat (take j bs @ bs ! j # drop (Suc j) bs)"
    by (rule arg_cong [OF id_take_nth_drop [OF j]])
  also have "\<dots> = ?xs @ bs ! j @ ?ys" by simp
  finally have eq: "?xs @ bs ! j @ ?ys = [0..<n]" using c by simp
  have "length (?xs @ bs ! j @ ?ys) = length [0..<n]" by (rule arg_cong [OF eq])
  then have le: "length ?xs + length (bs ! j) \<le> n" by simp
  have "bs ! j = take (length (bs ! j)) (drop (length ?xs) (?xs @ bs ! j @ ?ys))" by simp
  also have "\<dots> = take (length (bs ! j)) (drop (length ?xs) [0..<n])" by (simp only: eq)
  also have "\<dots> = [length ?xs..<length ?xs + length (bs ! j)]"
    using le by simp
  finally show ?thesis .
qed

lemma tail_is_last:
  assumes inv: "cfg_inv ds r" and j: "j < length (blocks r)"
    and x: "x \<in> set (blocks r ! j)" and t: "tail (ops r ! x)"
  shows "x = last (blocks r ! j)"
proof (rule ccontr)
  assume neq: "x \<noteq> last (blocks r ! j)"
  define b where "b = blocks r ! j"
  define m where "m = length (concat (take j (blocks r)))"
  define l where "l = length b"
  have b: "b = [m..<m + l]"
    unfolding b_def m_def l_def by (rule concat_upt_nth [OF cfg_invD(8) [OF inv] j])
  have ok: "block_ok (ops r) j b" unfolding b_def by (rule cfg_invD(9) [OF inv j])
  then have ne: "b \<noteq> []" by (simp add: block_ok_def)
  with b have l0: "0 < l" by (cases l) auto
  from x have "x \<in> set [m..<m + l]" using b by (simp add: b_def)
  then have xr: "m \<le> x" "x < m + l" by simp_all
  have "last [m..<m + l] = m + l - 1" using l0 by simp
  with neq b have "x \<noteq> m + l - 1" by (simp add: b_def)
  with xr have sx: "Suc x < m + l" by simp
  have "tl [m..<m + l] = [Suc m..<m + l]" by simp
  with b have tl: "tl b = [Suc m..<m + l]" by simp
  from sx xr have "Suc x \<in> set [Suc m..<m + l]" by simp
  with tl have mem: "Suc x \<in> set (tl b)" by simp
  with ok have nh: "\<not> head (ops r ! Suc x)" by (simp add: block_ok_def)
  from sx xr have "Suc x \<in> set [m..<m + l]" by simp
  with b have "Suc x \<in> set (blocks r ! j)" by (simp add: b_def)
  from blocks_mem_lt [OF cfg_invD(8) [OF inv] j this] have "Suc x < length ds" .
  from cfg_invD(7) [OF inv this] t have "head (ops r ! Suc x)" by simp
  with nh show False ..
qed

section \<open>Runs of the example programs\<close>

text \<open>The blocks, edges and attributes that \<open>cfg\<close> computes for the example programs.\<close>

lemma cfg_blocks_Inr: "cfg da ds = Inr r \<Longrightarrow> cfg_blocks da ds = Inr (blocks r)"
  by (simp add: cfg_blocks_def)

lemma cfg_edges_Inr: "cfg da ds = Inr r \<Longrightarrow> cfg_edges da ds = Inr (edges r)"
  by (simp add: cfg_edges_def)

lemma cfg_attrs_Inr: "cfg da ds = Inr r \<Longrightarrow> cfg_attrs da ds = Inr (map op_attrs (ops r))"
  by (simp add: cfg_attrs_def)

lemma ex_loop_run:
  "cfg_blocks ex_decode_arg ex_loop = Inr [[0, 1, 2], [3]]"
  "cfg_edges ex_decode_arg ex_loop = Inr [(0, 0, J_TRUE), (0, 1, J_FALSE)]"
  "cfg_attrs ex_decode_arg ex_loop =
     Inr [(True, False, None, Some 0), (False, False, None, Some 1),
          (False, True, Some 0, Some 1), (True, False, None, Some 1)]"
  by code_simp+

lemma ex_jump_next_run:
  "cfg_blocks ex_decode_arg ex_jump_next = Inr [[0], [1]]"
  "cfg_edges ex_decode_arg ex_jump_next = Inr [(0, 1, J_TRUE), (0, 1, J_FALSE)]"
  by code_simp+

lemma ex_jump_invalid_run:
  "cfg_blocks ex_decode_arg ex_jump_invalid = Inr [[0], [1, 2]]"
  "cfg_edges ex_decode_arg ex_jump_invalid = Inr [(0, 1, J_TRUE), (0, 1, J_FALSE)]"
  "cfg_attrs ex_decode_arg ex_jump_invalid =
     Inr [(True, True, Some 3, Some 0), (True, False, None, Some 1),
          (False, False, None, Some 2)]"
  by code_simp+

lemma ex_jump_out_run:
  "cfg_blocks ex_decode_arg ex_jump_out = Inr [[0], [1]]"
  "cfg_edges ex_decode_arg ex_jump_out = Inr [(0, 1, J_FALSE)]"
  "cfg_attrs ex_decode_arg ex_jump_out =
     Inr [(True, True, Some 100, Some 0), (True, False, None, Some 1)]"
  by code_simp+

lemma ex_halt_mid_run:
  "cfg_blocks ex_decode_arg ex_halt_mid = Inr [[0], [1], [2]]"
  "cfg_edges ex_decode_arg ex_halt_mid = Inr [(0, 2, J_TRUE), (0, 1, J_FALSE)]"
  by code_simp+

lemma ex_last_tail_run:
  "cfg_blocks ex_decode_arg ex_last_tail = Inr [[0, 1]]"
  "cfg_edges ex_decode_arg ex_last_tail = Inr []"
  "cfg_attrs ex_decode_arg ex_last_tail =
     Inr [(True, False, None, Some 0), (False, True, Some 0, Some 1)]"
  by code_simp+

lemma ex_single_run:
  "cfg_blocks ex_decode_arg [ex_single] = Inr [[0]]"
  "cfg_edges ex_decode_arg [ex_single] = Inr []"
  "cfg_attrs ex_decode_arg [ex_single] = Inr [(True, True, Some 0, Some 0)]"
  by code_simp+

lemma ex_wf:
  "wf_stream ex_loop" "wf_stream ex_jump_next" "wf_stream ex_jump_invalid"
  "wf_stream ex_jump_out" "wf_stream ex_halt_mid" "wf_stream ex_last_tail"
  "wf_stream [ex_single]"
  by code_simp+

section \<open>Shared lemmas about edges and addresses\<close>

lemma decoded_ops:
  assumes "cfg_inv ds r" and "x < length ds"
  shows "optype (ops r ! x) = optype (ds ! x)" and "pc (ops r ! x) = pc (ds ! x)"
proof -
  have "optype (instr_of (ops r ! x)) = optype (ds ! x)" "pc (instr_of (ops r ! x)) = pc (ds ! x)"
    by (simp_all only: cfg_invD(2) [OF assms])
  then show "optype (ops r ! x) = optype (ds ! x)" and "pc (ops r ! x) = pc (ds ! x)"
    by (simp_all add: instr_of_def)
qed

lemma edges_mem_ds:
  assumes inv: "cfg_inv ds r"
  shows "((i, d, k) \<in> set (edges r)) =
     (Suc i < length (blocks r) \<and> optype (ds ! last (blocks r ! i)) \<noteq> OpHlt \<and>
      ((k = J_TRUE \<and> tail (ops r ! last (blocks r ! i)) \<and>
        (\<exists>ja dst. jump_addr (ops r ! last (blocks r ! i)) = Some ja \<and>
           addr_to_op r ja = Some dst \<and> block_id (ops r ! dst) = Some d)) \<or>
       (d = Suc i \<and>
        k = (if tail (ops r ! last (blocks r ! i)) then J_FALSE else J_UNCONDITIONAL))))"
proof (cases "Suc i < length (blocks r)")
  case True
  then have "i < length (blocks r)" by simp
  from decoded_ops(1) [OF inv last_block_lt [OF inv this]]
  show ?thesis unfolding edges_mem [OF inv] by simp
next
  case False
  then show ?thesis unfolding edges_mem [OF inv] by simp
qed

lemma concat_map_upt_single:
  "i < m \<Longrightarrow> (\<And>j. j < m \<Longrightarrow> j \<noteq> i \<Longrightarrow> g j = []) \<Longrightarrow> concat (map g [0..<m]) = g i"
proof (induction m)
  case 0
  then show ?case by simp
next
  case (Suc m)
  show ?case
  proof (cases "i = m")
    case True
    have "concat (map g [0..<m]) = []" using Suc.prems(2) True by auto
    with True show ?thesis by simp
  next
    case False
    with Suc.prems(1) have im: "i < m" by simp
    have "g m = []" using Suc.prems(2) [of m] False by simp
    moreover have "concat (map g [0..<m]) = g i"
      by (rule Suc.IH [OF im]) (simp add: Suc.prems(2))
    ultimately show ?thesis by simp
  qed
qed

lemma filter_true_edge:
  "filter (\<lambda>e. fst e = i \<and> snd (snd e) \<noteq> J_TRUE) (true_edge s a j x) = []"
  by (auto simp: filter_empty_conv true_edge_mem)

lemma filter_pair_edges:
  assumes "head (s ! hd cur)"
  shows "filter (\<lambda>e. fst e = i \<and> snd (snd e) \<noteq> J_TRUE) (pair_edges s a (j, prev, cur)) =
     (if j = i \<and> optype (s ! last prev) \<noteq> OpHlt
      then [(i, Suc i, if tail (s ! last prev) then J_FALSE else J_UNCONDITIONAL)] else [])"
  using assms by (simp add: pair_edges_def filter_true_edge)

lemma filter_fallthrough:
  assumes inv: "cfg_inv ds r" and i: "Suc i < length (blocks r)"
    and nh: "optype (ds ! last (blocks r ! i)) \<noteq> OpHlt"
  shows "filter (\<lambda>e. fst e = i \<and> snd (snd e) \<noteq> J_TRUE) (edges r) =
     [(i, Suc i, if tail (ops r ! last (blocks r ! i)) then J_FALSE else J_UNCONDITIONAL)]"
proof -
  let ?P = "\<lambda>e. fst e = i \<and> snd (snd e) \<noteq> J_TRUE"
  let ?f = "\<lambda>j. pair_edges (ops r) (addr_to_op r) (j, blocks r ! j, blocks r ! Suc j)"
  let ?m = "length (blocks r) - 1"
  have hd: "head (ops r ! hd (blocks r ! Suc j))" if "j < ?m" for j
  proof -
    from that have "Suc j < length (blocks r)" by simp
    from cfg_invD(9) [OF inv this] show ?thesis by (simp add: block_ok_def)
  qed
  from i have im: "i < ?m" and il: "i < length (blocks r)" by simp_all
  have nh': "optype (ops r ! last (blocks r ! i)) \<noteq> OpHlt"
    using nh decoded_ops(1) [OF inv last_block_lt [OF inv il]] by simp
  have "filter ?P (edges r) = concat (map (\<lambda>j. filter ?P (?f j)) [0..<?m])"
    unfolding cfg_invD(10) [OF inv] by (simp add: filter_concat comp_def)
  also have "\<dots> = filter ?P (?f i)"
    by (rule concat_map_upt_single [OF im]) (simp add: filter_pair_edges [OF hd])
  also have "\<dots> =
      [(i, Suc i, if tail (ops r ! last (blocks r ! i)) then J_FALSE else J_UNCONDITIONAL)]"
    using nh' by (simp add: filter_pair_edges [OF hd [OF im]])
  finally show ?thesis .
qed

lemma addr_to_op_distinct:
  assumes inv: "cfg_inv ds r" and d: "distinct (map pc ds)" and i: "i < length ds"
  shows "(addr_to_op r ja = Some i) = (pc (ds ! i) = ja)"
proof
  assume "addr_to_op r ja = Some i"
  from cfg_invD(4) [OF inv this] show "pc (ds ! i) = ja" by simp
next
  assume p: "pc (ds ! i) = ja"
  with i have "ja \<in> pc ` set ds" by auto
  then have "ja \<in> dom (addr_to_op r)" by (simp only: cfg_invD(5) [OF inv])
  then obtain k where k: "addr_to_op r ja = Some k" by auto
  from cfg_invD(4) [OF inv k] have kl: "k < length ds" and kp: "pc (ds ! k) = ja" by simp_all
  from kp p kl i have e: "map pc ds ! k = map pc ds ! i" by simp
  from kl i have "k < length (map pc ds)" "i < length (map pc ds)" by simp_all
  from nth_eq_iff_index_eq [OF d this] e have "k = i" by blast
  with k show "addr_to_op r ja = Some i" by simp
qed

lemma nth_attrs:
  assumes "map op_attrs xs = ys" and "i < length ys"
  shows "op_attrs (xs ! i) = ys ! i"
proof -
  from assms have "i < length xs" by auto
  then have "map op_attrs xs ! i = op_attrs (xs ! i)" by simp
  with assms(1) show ?thesis by simp
qed

text \<open>
  Inside the scan, a block is the source of a \<open>TRUE\<close> edge exactly when its last
  instruction is a tail, not a halt instruction, whose \<open>jump_addr\<close> is the address of an
  op of the stream. The last block is never scanned as a source.
\<close>

lemma true_edge_iff:
  assumes "cfg da ds = Inr r"
  shows "(\<exists>d. (i, d, J_TRUE) \<in> set (edges r)) =
     (Suc i < length (blocks r) \<and> optype (ds ! last (blocks r ! i)) \<noteq> OpHlt \<and>
      tail (ops r ! last (blocks r ! i)) \<and>
      (\<exists>ja. jump_addr (ops r ! last (blocks r ! i)) = Some ja \<and> ja \<in> pc ` set ds))"
proof -
  note inv = cfg_inv_of_run [OF assms]
  let ?x = "last (blocks r ! i)"
  show ?thesis
  proof (cases "Suc i < length (blocks r) \<and> tail (ops r ! ?x)")
    case False
    then show ?thesis by (auto simp: edges_mem_ds [OF inv] split: if_splits)
  next
    case True
    then have il: "i < length (blocks r)" and t: "tail (ops r ! ?x)" by simp_all
    note xl = last_block_lt [OF inv il]
    have "(\<exists>ja dst. jump_addr (ops r ! ?x) = Some ja \<and> addr_to_op r ja = Some dst \<and>
            (\<exists>d. block_id (ops r ! dst) = Some d)) =
          (\<exists>ja. jump_addr (ops r ! ?x) = Some ja \<and> ja \<in> pc ` set ds)"
      (is "?L = ?R")
    proof
      assume ?L
      then obtain ja dst where ja: "jump_addr (ops r ! ?x) = Some ja"
        and "addr_to_op r ja = Some dst" by blast
      then have "ja \<in> dom (addr_to_op r)" by auto
      with ja show ?R by (simp add: cfg_invD(5) [OF inv])
    next
      assume ?R
      then obtain ja where ja: "jump_addr (ops r ! ?x) = Some ja" and "ja \<in> pc ` set ds"
        by blast
      then have "ja \<in> dom (addr_to_op r)" by (simp only: cfg_invD(5) [OF inv])
      then obtain dst where dst: "addr_to_op r ja = Some dst" by auto
      from target_block [OF inv xl t ja dst] ja dst show ?L by blast
    qed
    with True show ?thesis
      by (simp add: edges_mem_ds [OF inv]) blast
  qed
qed

section \<open>The claims\<close>

text \<open>
  Every theorem below is about a stream that is not empty and in which each \<open>jnz\<close> and
  \<open>jz\<close> has a second addressing mode (\<open>wf_stream\<close>). These are exactly the streams
  on which \<open>cfg\<close> raises no error (lemma \<open>cfg_returns_iff\<close>).
\<close>

lemma cfg_returns_iff: "(\<exists>r. cfg da ds = Inr r) = (ds \<noteq> [] \<and> wf_stream ds)"
  using cfg_run [of ds da] cfg_Inr_pre [of da ds] by blast

text \<open>
  C1. The blocks are an exact partition of the input: the concatenation of the blocks in
  the order of their ids is the list of all references \<open>0, 1, \<dots>\<close> in order, no block
  is empty, every block is a run of consecutive references, and reading the decoded
  attributes of the ops along the concatenation gives back the input stream.
\<close>

theorem blocks_partition_input:
  assumes "ds \<noteq> []" and "wf_stream ds"
  shows "\<exists>r. cfg da ds = Inr r \<and>
           concat (blocks r) = [0..<length ds] \<and>
           [] \<notin> set (blocks r) \<and>
           (\<forall>b \<in> set (blocks r). \<exists>m. b = [m..<m + length b]) \<and>
           map (\<lambda>x. instr_of (ops r ! x)) (concat (blocks r)) = ds"
proof -
  from cfg_run [OF assms, of da] obtain r where run: "cfg da ds = Inr r"
    and inv: "cfg_inv ds r" by blast
  note c = cfg_invD(8) [OF inv]
  have ne: "[] \<notin> set (blocks r)"
  proof
    assume "[] \<in> set (blocks r)"
    then obtain j where j: "j < length (blocks r)" "blocks r ! j = []"
      by (auto simp: in_set_conv_nth)
    from cfg_invD(9) [OF inv j(1)] j(2) show False by (simp add: block_ok_def)
  qed
  have run_of: "\<exists>m. b = [m..<m + length b]" if "b \<in> set (blocks r)" for b
  proof -
    from that obtain j where j: "j < length (blocks r)" "blocks r ! j = b"
      by (auto simp: in_set_conv_nth)
    from concat_upt_nth [OF c j(1)] j(2) show ?thesis by auto
  qed
  have "map (\<lambda>x. instr_of (ops r ! x)) [0..<length ds] = ds"
    by (rule nth_equalityI) (simp_all add: cfg_invD(2) [OF inv])
  with run c ne run_of show ?thesis by auto
qed

theorem blocks_partition_input_witness:
  "ex_loop \<noteq> [] \<and> wf_stream ex_loop \<and>
   (\<exists>r. cfg ex_decode_arg ex_loop = Inr r \<and> blocks r = [[0, 1, 2], [3]] \<and>
      concat (blocks r) = [0, 1, 2, 3] \<and>
      map (\<lambda>x. instr_of (ops r ! x)) (concat (blocks r)) = ex_loop)"
proof -
  have h: "ex_loop \<noteq> []" "wf_stream ex_loop" by code_simp+
  from blocks_partition_input [OF h, of ex_decode_arg] obtain r
    where r: "cfg ex_decode_arg ex_loop = Inr r"
      and m: "map (\<lambda>x. instr_of (ops r ! x)) (concat (blocks r)) = ex_loop"
    by blast
  from cfg_blocks_Inr [OF r] have b: "blocks r = [[0, 1, 2], [3]]"
    by (simp add: ex_loop_run)
  from h r m b show ?thesis by simp
qed

text \<open>
  C2. A block whose last instruction is a tail with a resolved target should be the source
  of a \<open>TRUE\<close> edge. This fails on the last block. In the program \<open>ex_last_tail\<close> the
  last instruction, at address 2, is a \<open>jnz\<close> with the immediate target 0, the address
  of the first instruction. The one block that \<open>cfg\<close> builds ends in this tail, its
  \<open>jump_addr\<close> is resolved and the target is marked as a head, but there is no edge at
  all. For every block but the last the equivalence holds (lemma \<open>true_edge_iff\<close>).
\<close>

theorem last_block_true_edge_missing:
  "pc (ex_last_tail ! 0) = 0 \<and>
   cfg_attrs ex_decode_arg ex_last_tail =
     Inr [(True, False, None, Some 0), (False, True, Some 0, Some 1)] \<and>
   cfg_blocks ex_decode_arg ex_last_tail = Inr [[0, 1]] \<and>
   cfg_edges ex_decode_arg ex_last_tail = Inr []"
  by (simp add: ex_last_tail_run) (simp add: ex_last_tail_def mk_instr_def)

text \<open>
  C3. A block whose last instruction is a halt instruction is the source of no edge,
  of any kind.
\<close>

theorem halt_block_no_edges:
  assumes "ds \<noteq> []" and "wf_stream ds"
  shows "\<exists>r. cfg da ds = Inr r \<and>
           (\<forall>i<length (blocks r).
              optype (ds ! last (blocks r ! i)) = OpHlt \<longrightarrow>
              (\<forall>d k. (i, d, k) \<notin> set (edges r)))"
proof -
  from cfg_run [OF assms, of da] obtain r where run: "cfg da ds = Inr r"
    and inv: "cfg_inv ds r" by blast
  have "\<forall>i<length (blocks r).
      optype (ds ! last (blocks r ! i)) = OpHlt \<longrightarrow> (\<forall>d k. (i, d, k) \<notin> set (edges r))"
    by (simp add: edges_mem_ds [OF inv])
  with run show ?thesis by blast
qed

theorem halt_block_no_edges_witness:
  "ex_halt_mid \<noteq> [] \<and> wf_stream ex_halt_mid \<and>
   (\<exists>r. cfg ex_decode_arg ex_halt_mid = Inr r \<and> blocks r = [[0], [1], [2]] \<and>
      optype (ex_halt_mid ! 1) = OpHlt \<and> (\<forall>d k. (1, d, k) \<notin> set (edges r)))"
proof -
  have h: "ex_halt_mid \<noteq> []" "wf_stream ex_halt_mid" by code_simp+
  have t: "optype (ex_halt_mid ! 1) = OpHlt" by (simp add: ex_halt_mid_def mk_instr_def)
  from halt_block_no_edges [OF h, of ex_decode_arg] obtain r
    where r: "cfg ex_decode_arg ex_halt_mid = Inr r"
      and e: "\<And>i. i < length (blocks r) \<Longrightarrow>
                optype (ex_halt_mid ! last (blocks r ! i)) = OpHlt \<Longrightarrow>
                (\<forall>d k. (i, d, k) \<notin> set (edges r))"
    by blast
  from cfg_blocks_Inr [OF r] have b: "blocks r = [[0], [1], [2]]"
    by (simp add: ex_halt_mid_run)
  from e [of 1] b t have "\<forall>d k. (1, d, k) \<notin> set (edges r)" by simp
  with h r b t show ?thesis by blast
qed

text \<open>
  C4, as amended. From a block that is not the last one and whose last instruction is not
  a halt instruction there is exactly one edge of a kind other than \<open>TRUE\<close>. It goes to the
  next block, and its kind is \<open>FALSE\<close> when the last instruction of the block is a tail
  and \<open>UNCONDITIONAL\<close> otherwise.
\<close>

theorem fallthrough_edge_unique:
  assumes "ds \<noteq> []" and "wf_stream ds"
  shows "\<exists>r. cfg da ds = Inr r \<and>
           (\<forall>i. Suc i < length (blocks r) \<longrightarrow>
              optype (ds ! last (blocks r ! i)) \<noteq> OpHlt \<longrightarrow>
              filter (\<lambda>e. fst e = i \<and> snd (snd e) \<noteq> J_TRUE) (edges r) =
                [(i, Suc i,
                  if tail (ops r ! last (blocks r ! i)) then J_FALSE else J_UNCONDITIONAL)])"
proof -
  from cfg_run [OF assms, of da] obtain r where run: "cfg da ds = Inr r"
    and inv: "cfg_inv ds r" by blast
  from run filter_fallthrough [OF inv] show ?thesis by blast
qed

theorem fallthrough_edge_unique_witness:
  "ex_jump_next \<noteq> [] \<and> wf_stream ex_jump_next \<and>
   (\<exists>r. cfg ex_decode_arg ex_jump_next = Inr r \<and> blocks r = [[0], [1]] \<and>
      optype (ex_jump_next ! 0) \<noteq> OpHlt \<and>
      filter (\<lambda>e. fst e = 0 \<and> snd (snd e) \<noteq> J_TRUE) (edges r) = [(0, 1, J_FALSE)])"
proof -
  have h: "ex_jump_next \<noteq> []" "wf_stream ex_jump_next" by code_simp+
  have t: "optype (ex_jump_next ! 0) \<noteq> OpHlt" by (simp add: ex_jump_next_def mk_instr_def)
  from fallthrough_edge_unique [OF h, of ex_decode_arg] obtain r
    where r: "cfg ex_decode_arg ex_jump_next = Inr r"
      and e: "\<And>i. Suc i < length (blocks r) \<Longrightarrow>
              optype (ex_jump_next ! last (blocks r ! i)) \<noteq> OpHlt \<Longrightarrow>
              filter (\<lambda>e. fst e = i \<and> snd (snd e) \<noteq> J_TRUE) (edges r) =
                [(i, Suc i,
                  if tail (ops r ! last (blocks r ! i)) then J_FALSE else J_UNCONDITIONAL)]"
    by blast
  from cfg_blocks_Inr [OF r] have b: "blocks r = [[0], [1]]"
    by (simp add: ex_jump_next_run)
  from cfg_edges_Inr [OF r] have es: "edges r = [(0, 1, J_TRUE), (0, 1, J_FALSE)]"
    by (simp add: ex_jump_next_run)
  from e [of 0] b t have "filter (\<lambda>e. fst e = 0 \<and> snd (snd e) \<noteq> J_TRUE) (edges r) =
      [(0, 1, if tail (ops r ! 0) then J_FALSE else J_UNCONDITIONAL)]"
    by simp
  then have "filter (\<lambda>e. fst e = 0 \<and> snd (snd e) \<noteq> J_TRUE) (edges r) = [(0, 1, J_FALSE)]"
    by (simp add: es)
  with h r b t show ?thesis by blast
qed

text \<open>
  C4 as stated fails: a conditional jump to the instruction right after it gives two edges
  from its block to the next block, one \<open>TRUE\<close> and one \<open>FALSE\<close>, although the block
  does not end in a halt instruction.
\<close>

theorem fallthrough_edge_counterexample:
  "cfg_blocks ex_decode_arg ex_jump_next = Inr [[0], [1]] \<and>
   optype (ex_jump_next ! 0) \<noteq> OpHlt \<and>
   cfg_edges ex_decode_arg ex_jump_next = Inr [(0, 1, J_TRUE), (0, 1, J_FALSE)]"
  by (simp add: ex_jump_next_run) (simp add: ex_jump_next_def mk_instr_def)

text \<open>
  C5, as amended. A tail whose \<open>jump_addr\<close> is the address of no op of the stream gives
  no \<open>TRUE\<close> edge from its block, and \<open>cfg\<close> raises no error.
\<close>

theorem unresolved_target_no_true_edge:
  assumes "ds \<noteq> []" and "wf_stream ds"
  shows "\<exists>r. cfg da ds = Inr r \<and>
           (\<forall>x<length ds. \<forall>ja.
              tail (ops r ! x) \<longrightarrow> jump_addr (ops r ! x) = Some ja \<longrightarrow>
              ja \<notin> pc ` set ds \<longrightarrow>
              (\<forall>i<length (blocks r). x \<in> set (blocks r ! i) \<longrightarrow>
                 (\<forall>d. (i, d, J_TRUE) \<notin> set (edges r))))"
proof -
  from cfg_run [OF assms, of da] obtain r where run: "cfg da ds = Inr r"
    and inv: "cfg_inv ds r" by blast
  have "(i, d, J_TRUE) \<notin> set (edges r)"
    if t: "tail (ops r ! x)" and ja: "jump_addr (ops r ! x) = Some ja"
      and out: "ja \<notin> pc ` set ds" and i: "i < length (blocks r)"
      and x: "x \<in> set (blocks r ! i)" for x ja i d
  proof
    assume "(i, d, J_TRUE) \<in> set (edges r)"
    then obtain ja' dst where "jump_addr (ops r ! last (blocks r ! i)) = Some ja'"
      and dst: "addr_to_op r ja' = Some dst"
      by (auto simp: edges_mem_ds [OF inv] split: if_splits)
    moreover from tail_is_last [OF inv i x t] have "last (blocks r ! i) = x" by simp
    ultimately have "ja' = ja" using ja by simp
    with dst have "ja \<in> dom (addr_to_op r)" by auto
    with out show False by (simp only: cfg_invD(5) [OF inv])
  qed
  with run show ?thesis by blast
qed

theorem unresolved_target_no_true_edge_witness:
  "ex_jump_out \<noteq> [] \<and> wf_stream ex_jump_out \<and>
   (\<exists>r. cfg ex_decode_arg ex_jump_out = Inr r \<and> blocks r = [[0], [1]] \<and>
      tail (ops r ! 0) \<and> jump_addr (ops r ! 0) = Some 100 \<and>
      100 \<notin> pc ` set ex_jump_out \<and> (\<forall>d. (0, d, J_TRUE) \<notin> set (edges r)))"
proof -
  have h: "ex_jump_out \<noteq> []" "wf_stream ex_jump_out" by code_simp+
  have l: "0 < length ex_jump_out" and o: "100 \<notin> pc ` set ex_jump_out"
    by (simp_all add: ex_jump_out_def mk_instr_def)
  from unresolved_target_no_true_edge [OF h, of ex_decode_arg] obtain r
    where r: "cfg ex_decode_arg ex_jump_out = Inr r"
      and e: "\<And>x ja i. x < length ex_jump_out \<Longrightarrow> tail (ops r ! x) \<Longrightarrow>
              jump_addr (ops r ! x) = Some ja \<Longrightarrow> ja \<notin> pc ` set ex_jump_out \<Longrightarrow>
              i < length (blocks r) \<Longrightarrow> x \<in> set (blocks r ! i) \<Longrightarrow>
              (\<forall>d. (i, d, J_TRUE) \<notin> set (edges r))"
    by blast
  from cfg_blocks_Inr [OF r] have b: "blocks r = [[0], [1]]"
    by (simp add: ex_jump_out_run)
  from cfg_attrs_Inr [OF r]
  have "map op_attrs (ops r) = [(True, True, Some 100, Some 0), (True, False, None, Some 1)]"
    by (simp add: ex_jump_out_run)
  from nth_attrs [OF this, of 0]
  have a: "tail (ops r ! 0)" "jump_addr (ops r ! 0) = Some 100"
    by (simp_all add: op_attrs_def)
  from e [OF l a o, of 0] b have "\<forall>d. (0, d, J_TRUE) \<notin> set (edges r)" by simp
  with h r b a o show ?thesis by blast
qed

text \<open>
  C5 as stated fails in its second case: an op with an invalid opcode is an op of the
  stream like any other, it is entered in \<open>addr_to_op\<close>, and a jump to its address gives
  a \<open>TRUE\<close> edge to the block that it starts.
\<close>

theorem invalid_target_counterexample:
  "optype (ex_jump_invalid ! 1) = OpInvalid \<and> pc (ex_jump_invalid ! 1) = 3 \<and>
   cfg_attrs ex_decode_arg ex_jump_invalid =
     Inr [(True, True, Some 3, Some 0), (True, False, None, Some 1),
          (False, False, None, Some 2)] \<and>
   cfg_blocks ex_decode_arg ex_jump_invalid = Inr [[0], [1, 2]] \<and>
   cfg_edges ex_decode_arg ex_jump_invalid = Inr [(0, 1, J_TRUE), (0, 1, J_FALSE)]"
  by (simp add: ex_jump_invalid_run) (simp add: ex_jump_invalid_def mk_instr_def)

text \<open>
  C6. The flag \<open>tail\<close> of an op is what \<open>breaks_basic_block\<close> returns for it: it is set
  if and only if the mnemonic is \<open>jnz\<close> or \<open>jz\<close> and the addressing mode of the second
  argument is immediate. The decoded attributes of the op are those of the input.
\<close>

theorem tail_flag_iff:
  assumes "ds \<noteq> []" and "wf_stream ds"
  shows "\<exists>r. cfg da ds = Inr r \<and> length (ops r) = length ds \<and>
           (\<forall>i<length ds.
              instr_of (ops r ! i) = ds ! i \<and>
              breaks_basic_block (ds ! i) = Inr (tail (ops r ! i)) \<and>
              tail (ops r ! i) =
                (mnemonic (ds ! i) \<in> {''jnz'', ''jz''} \<and>
                 argmodes (ds ! i) ! 1 = ARGMODE_IMMEDIATE))"
proof -
  from cfg_run [OF assms, of da] obtain r where run: "cfg da ds = Inr r"
    and inv: "cfg_inv ds r" by blast
  have "instr_of (ops r ! i) = ds ! i \<and>
        breaks_basic_block (ds ! i) = Inr (tail (ops r ! i)) \<and>
        tail (ops r ! i) =
          (mnemonic (ds ! i) \<in> {''jnz'', ''jz''} \<and> argmodes (ds ! i) ! 1 = ARGMODE_IMMEDIATE)"
    if i: "i < length ds" for i
  proof -
    from i have "ds ! i \<in> set ds" by simp
    with assms(2) have
      w: "mnemonic (ds ! i) \<in> set [''jnz'', ''jz''] \<longrightarrow> 1 < length (argmodes (ds ! i))"
      unfolding wf_stream_def by blast
    from breaks_basic_block_wf [OF w] cfg_invD(2,3) [OF inv i] show ?thesis by simp
  qed
  with run cfg_invD(1) [OF inv] show ?thesis by blast
qed

theorem tail_flag_iff_witness:
  "ex_loop \<noteq> [] \<and> wf_stream ex_loop \<and>
   (\<exists>r. cfg ex_decode_arg ex_loop = Inr r \<and> length (ops r) = 4 \<and>
      \<not> tail (ops r ! 0) \<and> \<not> tail (ops r ! 1) \<and> tail (ops r ! 2) \<and> \<not> tail (ops r ! 3))"
proof -
  have h: "ex_loop \<noteq> []" "wf_stream ex_loop" by code_simp+
  have l: "length ex_loop = 4" by code_simp
  from tail_flag_iff [OF h, of ex_decode_arg] obtain r
    where r: "cfg ex_decode_arg ex_loop = Inr r" and n: "length (ops r) = length ex_loop"
      and t: "\<And>i. i < length ex_loop \<Longrightarrow> tail (ops r ! i) =
                (mnemonic (ex_loop ! i) \<in> {''jnz'', ''jz''} \<and>
                 argmodes (ex_loop ! i) ! 1 = ARGMODE_IMMEDIATE)"
    by blast
  have "\<not> tail (ops r ! 0)" "\<not> tail (ops r ! 1)" "tail (ops r ! 2)" "\<not> tail (ops r ! 3)"
    by (simp_all add: t l) (simp_all add: ex_loop_def mk_instr_def)
  with h r n l show ?thesis by simp
qed

text \<open>
  C7. In every block the first op is a head and no later op is. When the addresses of the
  stream are pairwise distinct, an op is a head if and only if it is the first op of the
  stream, or the op before it is a tail, or its address is the \<open>jump_addr\<close> of some tail.
\<close>

theorem head_flags:
  assumes "ds \<noteq> []" and "wf_stream ds"
  shows "\<exists>r. cfg da ds = Inr r \<and>
           (\<forall>b \<in> set (blocks r).
              b \<noteq> [] \<and> head (ops r ! hd b) \<and> (\<forall>x \<in> set (tl b). \<not> head (ops r ! x))) \<and>
           (distinct (map pc ds) \<longrightarrow>
              (\<forall>i<length ds.
                 head (ops r ! i) =
                   (i = 0 \<or> (0 < i \<and> tail (ops r ! (i - 1))) \<or>
                    (\<exists>j<length ds. tail (ops r ! j) \<and>
                       jump_addr (ops r ! j) = Some (pc (ds ! i))))))"
proof -
  from cfg_run [OF assms, of da] obtain r where run: "cfg da ds = Inr r"
    and inv: "cfg_inv ds r" by blast
  have b: "b \<noteq> [] \<and> head (ops r ! hd b) \<and> (\<forall>x \<in> set (tl b). \<not> head (ops r ! x))"
    if "b \<in> set (blocks r)" for b
  proof -
    from that obtain j where j: "j < length (blocks r)" "blocks r ! j = b"
      by (auto simp: in_set_conv_nth)
    from cfg_invD(9) [OF inv j(1)] j(2) show ?thesis by (auto simp: block_ok_def)
  qed
  have hd: "head (ops r ! i) =
      (i = 0 \<or> (0 < i \<and> tail (ops r ! (i - 1))) \<or>
       (\<exists>j<length ds. tail (ops r ! j) \<and> jump_addr (ops r ! j) = Some (pc (ds ! i))))"
    if d: "distinct (map pc ds)" and i: "i < length ds" for i
    unfolding cfg_invD(7) [OF inv i] addr_to_op_distinct [OF inv d i] by auto
  from run b hd show ?thesis by blast
qed

theorem head_flags_witness:
  "ex_loop \<noteq> [] \<and> wf_stream ex_loop \<and> distinct (map pc ex_loop) \<and>
   (\<exists>r. cfg ex_decode_arg ex_loop = Inr r \<and> blocks r = [[0, 1, 2], [3]] \<and>
      head (ops r ! 0) \<and> \<not> head (ops r ! 1) \<and> \<not> head (ops r ! 2) \<and>
      head (ops r ! 3) = (tail (ops r ! 2) \<or>
        (\<exists>j<4. tail (ops r ! j) \<and> jump_addr (ops r ! j) = Some 7)))"
proof -
  have h: "ex_loop \<noteq> []" "wf_stream ex_loop" and d: "distinct (map pc ex_loop)"
    by code_simp+
  have l: "length ex_loop = 4" and p: "pc (ex_loop ! 3) = 7"
    by (simp_all add: ex_loop_def mk_instr_def)
  from head_flags [OF h, of ex_decode_arg] d obtain r
    where r: "cfg ex_decode_arg ex_loop = Inr r"
      and b: "\<forall>b \<in> set (blocks r).
              b \<noteq> [] \<and> head (ops r ! hd b) \<and> (\<forall>x \<in> set (tl b). \<not> head (ops r ! x))"
      and c: "\<forall>i<length ex_loop.
                 head (ops r ! i) =
                   (i = 0 \<or> (0 < i \<and> tail (ops r ! (i - 1))) \<or>
                    (\<exists>j<length ex_loop. tail (ops r ! j) \<and>
                       jump_addr (ops r ! j) = Some (pc (ex_loop ! i))))"
    by blast
  from cfg_blocks_Inr [OF r] have bs: "blocks r = [[0, 1, 2], [3]]"
    by (simp add: ex_loop_run)
  from b bs have "head (ops r ! 0)" "\<not> head (ops r ! 1)" "\<not> head (ops r ! 2)"
    by simp_all
  moreover from c [rule_format, of 3] have "head (ops r ! 3) = (tail (ops r ! 2) \<or>
        (\<exists>j<4. tail (ops r ! j) \<and> jump_addr (ops r ! j) = Some 7))"
    by (simp add: l p)
  ultimately show ?thesis using h d r bs by simp
qed

text \<open>
  C8. Source and target of every edge are indices into the list of blocks. The target of a
  \<open>TRUE\<close> edge is the \<open>block_id\<close> of the op at the jump target; that op is a head, the
  first op of the block with this index. An op that is not a head carries a \<open>block_id\<close>
  one greater than the index of its block.
\<close>

theorem edge_ids_valid:
  assumes "ds \<noteq> []" and "wf_stream ds"
  shows "\<exists>r. cfg da ds = Inr r \<and>
           (\<forall>(i, d, k) \<in> set (edges r).
              i < length (blocks r) \<and> d < length (blocks r) \<and>
              (k = J_TRUE \<longrightarrow>
                (\<exists>ja dst. jump_addr (ops r ! last (blocks r ! i)) = Some ja \<and>
                   addr_to_op r ja = Some dst \<and> pc (ds ! dst) = ja \<and>
                   head (ops r ! dst) \<and> block_id (ops r ! dst) = Some d \<and>
                   hd (blocks r ! d) = dst))) \<and>
           (\<forall>j<length (blocks r).
              block_id (ops r ! hd (blocks r ! j)) = Some j \<and>
              (\<forall>x \<in> set (tl (blocks r ! j)). block_id (ops r ! x) = Some (Suc j)))"
proof -
  from cfg_run [OF assms, of da] obtain r where run: "cfg da ds = Inr r"
    and inv: "cfg_inv ds r" by blast
  have e: "i < length (blocks r) \<and> d < length (blocks r) \<and>
      (k = J_TRUE \<longrightarrow>
        (\<exists>ja dst. jump_addr (ops r ! last (blocks r ! i)) = Some ja \<and>
           addr_to_op r ja = Some dst \<and> pc (ds ! dst) = ja \<and>
           head (ops r ! dst) \<and> block_id (ops r ! dst) = Some d \<and>
           hd (blocks r ! d) = dst))"
    if m: "(i, d, k) \<in> set (edges r)" for i d k
  proof -
    from m have i: "Suc i < length (blocks r)" by (simp add: edges_mem_ds [OF inv])
    then have il: "i < length (blocks r)" by simp
    let ?x = "last (blocks r ! i)"
    note xl = last_block_lt [OF inv il]
    show ?thesis
    proof (cases "k = J_TRUE")
      case True
      with m obtain ja dst where t: "tail (ops r ! ?x)"
        and ja: "jump_addr (ops r ! ?x) = Some ja" and dst: "addr_to_op r ja = Some dst"
        and bid: "block_id (ops r ! dst) = Some d"
        by (auto simp: edges_mem_ds [OF inv] split: if_splits)
      from target_block [OF inv xl t ja dst] bid
      have "d < length (blocks r)" "hd (blocks r ! d) = dst" "head (ops r ! dst)"
        "pc (ds ! dst) = ja"
        by auto
      with il ja dst bid show ?thesis by blast
    next
      case False
      with m have "d = Suc i" by (simp add: edges_mem_ds [OF inv])
      with i il False show ?thesis by simp
    qed
  qed
  have b: "block_id (ops r ! hd (blocks r ! j)) = Some j \<and>
      (\<forall>x \<in> set (tl (blocks r ! j)). block_id (ops r ! x) = Some (Suc j))"
    if "j < length (blocks r)" for j
    using cfg_invD(9) [OF inv that] by (simp add: block_ok_def)
  from run e b show ?thesis by blast
qed

theorem edge_ids_valid_witness:
  "ex_loop \<noteq> [] \<and> wf_stream ex_loop \<and>
   (\<exists>r. cfg ex_decode_arg ex_loop = Inr r \<and> blocks r = [[0, 1, 2], [3]] \<and>
      edges r = [(0, 0, J_TRUE), (0, 1, J_FALSE)] \<and>
      block_id (ops r ! 0) = Some 0 \<and> block_id (ops r ! 1) = Some 1 \<and>
      block_id (ops r ! 2) = Some 1 \<and> block_id (ops r ! 3) = Some 1 \<and>
      (\<exists>ja. jump_addr (ops r ! 2) = Some ja \<and> addr_to_op r ja = Some 0))"
proof -
  have h: "ex_loop \<noteq> []" "wf_stream ex_loop" by code_simp+
  from edge_ids_valid [OF h, of ex_decode_arg] obtain r
    where r: "cfg ex_decode_arg ex_loop = Inr r"
      and e: "\<forall>(i, d, k) \<in> set (edges r).
              k = J_TRUE \<longrightarrow>
                (\<exists>ja dst. jump_addr (ops r ! last (blocks r ! i)) = Some ja \<and>
                   addr_to_op r ja = Some dst \<and> hd (blocks r ! d) = dst)"
      and b: "\<forall>j<length (blocks r).
              block_id (ops r ! hd (blocks r ! j)) = Some j \<and>
              (\<forall>x \<in> set (tl (blocks r ! j)). block_id (ops r ! x) = Some (Suc j))"
    by fast
  from cfg_blocks_Inr [OF r] have bs: "blocks r = [[0, 1, 2], [3]]"
    by (simp add: ex_loop_run)
  from cfg_edges_Inr [OF r] have es: "edges r = [(0, 0, J_TRUE), (0, 1, J_FALSE)]"
    by (simp add: ex_loop_run)
  from b [rule_format, of 0] b [rule_format, of 1] bs
  have "block_id (ops r ! 0) = Some 0" "block_id (ops r ! 1) = Some 1"
    "block_id (ops r ! 2) = Some 1" "block_id (ops r ! 3) = Some 1"
    by simp_all
  moreover from e bs es have "\<exists>ja. jump_addr (ops r ! 2) = Some ja \<and> addr_to_op r ja = Some 0"
    by simp
  ultimately show ?thesis using h r bs es by simp
qed

text \<open>
  C9. The last block is the source of no edge, whatever its last instruction is: the
  scan over pairs of consecutive blocks only takes the first of a pair as a source.
\<close>

theorem last_block_no_edges:
  assumes "ds \<noteq> []" and "wf_stream ds"
  shows "\<exists>r. cfg da ds = Inr r \<and> blocks r \<noteq> [] \<and>
           (\<forall>d k. (length (blocks r) - 1, d, k) \<notin> set (edges r))"
proof -
  from cfg_run [OF assms, of da] obtain r where run: "cfg da ds = Inr r"
    and inv: "cfg_inv ds r" by blast
  have "blocks r \<noteq> []"
  proof
    assume "blocks r = []"
    with cfg_invD(8) [OF inv] have "[0..<length ds] = []" by simp
    with assms(1) show False by simp
  qed
  moreover from this have "\<forall>d k. (length (blocks r) - 1, d, k) \<notin> set (edges r)"
    by (simp add: edges_mem_ds [OF inv])
  ultimately show ?thesis using run by blast
qed

theorem last_block_no_edges_witness:
  "ex_last_tail \<noteq> [] \<and> wf_stream ex_last_tail \<and>
   (\<exists>r. cfg ex_decode_arg ex_last_tail = Inr r \<and> blocks r = [[0, 1]] \<and>
      tail (ops r ! 1) \<and> jump_addr (ops r ! 1) = Some (pc (ex_last_tail ! 0)) \<and>
      (\<forall>d k. (0, d, k) \<notin> set (edges r)))"
proof -
  have h: "ex_last_tail \<noteq> []" "wf_stream ex_last_tail" by code_simp+
  from last_block_no_edges [OF h, of ex_decode_arg] obtain r
    where r: "cfg ex_decode_arg ex_last_tail = Inr r"
      and e: "\<forall>d k. (length (blocks r) - 1, d, k) \<notin> set (edges r)"
    by blast
  from cfg_blocks_Inr [OF r] have b: "blocks r = [[0, 1]]"
    by (simp add: ex_last_tail_run)
  from cfg_attrs_Inr [OF r]
  have "map op_attrs (ops r) = [(True, False, None, Some 0), (False, True, Some 0, Some 1)]"
    by (simp add: ex_last_tail_run)
  from nth_attrs [OF this, of 1]
  have "op_attrs (ops r ! 1) = (False, True, Some 0, Some 1)" by simp
  then have "tail (ops r ! 1)" "jump_addr (ops r ! 1) = Some (pc (ex_last_tail ! 0))"
    by (simp_all add: op_attrs_def ex_last_tail_def mk_instr_def)
  with h r b e show ?thesis by simp
qed

text \<open>
  C10. A stream of one instruction gives one block, with id 0, that holds this
  instruction, marked as a head, and no edge, whatever the instruction is.
\<close>

theorem single_instruction:
  assumes "wf_stream [d]"
  shows "\<exists>r. cfg da [d] = Inr r \<and> blocks r = [[0]] \<and> edges r = [] \<and>
           length (ops r) = 1 \<and> instr_of (ops r ! 0) = d \<and> head (ops r ! 0)"
proof -
  have ne: "[d] \<noteq> []" by simp
  from cfg_run [OF ne assms, of da] obtain r where run: "cfg da [d] = Inr r"
    and inv: "cfg_inv [d] r" by blast
  have c: "concat (blocks r) = [0]" using cfg_invD(8) [OF inv] by simp
  have nn: "b \<noteq> []" if "b \<in> set (blocks r)" for b
  proof -
    from that obtain j where j: "j < length (blocks r)" "blocks r ! j = b"
      by (auto simp: in_set_conv_nth)
    from cfg_invD(9) [OF inv j(1)] j(2) show ?thesis by (auto simp: block_ok_def)
  qed
  have bs: "blocks r = [[0]]"
  proof (cases "blocks r")
    case Nil
    with c show ?thesis by simp
  next
    case (Cons b bs')
    with nn have b: "b \<noteq> []" by simp
    from c Cons have "b @ concat bs' = [0]" by simp
    with b have "b = [0]" "concat bs' = []" by (auto simp: append_eq_Cons_conv)
    moreover have "bs' = []"
    proof (cases bs')
      case Nil
      then show ?thesis .
    next
      case (Cons b' bs'')
      with \<open>blocks r = b # bs'\<close> nn have "b' \<noteq> []" by simp
      with \<open>concat bs' = []\<close> Cons show ?thesis by simp
    qed
    ultimately show ?thesis using Cons by simp
  qed
  have es: "edges r = []" unfolding cfg_invD(10) [OF inv] bs by simp
  have "head (ops r ! 0)" using cfg_invD(7) [OF inv, of 0] by simp
  with run bs es cfg_invD(1) [OF inv] cfg_invD(2) [OF inv, of 0] show ?thesis by simp
qed

theorem single_instruction_witness:
  "wf_stream [ex_single] \<and>
   (\<exists>r. cfg ex_decode_arg [ex_single] = Inr r \<and> blocks r = [[0]] \<and> edges r = [] \<and>
      tail (ops r ! 0) \<and> jump_addr (ops r ! 0) = Some (pc ex_single))"
proof -
  have h: "wf_stream [ex_single]" by code_simp
  from single_instruction [OF h, of ex_decode_arg] obtain r
    where r: "cfg ex_decode_arg [ex_single] = Inr r" and b: "blocks r = [[0]]"
      and e: "edges r = []" and l: "length (ops r) = 1"
    by blast
  from cfg_attrs_Inr [OF r] have "map op_attrs (ops r) = [(True, True, Some 0, Some 0)]"
    by (simp add: ex_single_run)
  then have "op_attrs (ops r ! 0) = (True, True, Some 0, Some 0)"
    using l by (cases "ops r") simp_all
  then have "tail (ops r ! 0)" "jump_addr (ops r ! 0) = Some (pc ex_single)"
    by (simp_all add: op_attrs_def ex_single_def mk_instr_def)
  with h r b e show ?thesis by simp
qed

end
